theory Spec2Isabelle
  imports Complex_Main
begin

section \<open>String primitives of the host language\<close>

text \<open>
  A string of the host language is a sequence of UTF-16 code units. A code unit is a
  natural number (below 65536 in every string of the program; no function below computes
  with code units beyond comparing them), and \<open>str\<close> writes a string from its ASCII
  text.
\<close>

type_synonym code_unit = nat

type_synonym ustring = "code_unit list"

abbreviation CU :: "char \<Rightarrow> code_unit" where
  "CU c \<equiv> of_char c"

abbreviation str :: "string \<Rightarrow> ustring" where
  "str s \<equiv> map of_char s"

abbreviation NL :: code_unit where
  "NL \<equiv> 0x0A"

abbreviation CR :: code_unit where
  "CR \<equiv> 0x0D"

text \<open>
  White space and line terminators removed by \<^verbatim>\<open>String.prototype.trim\<close>: tab, the
  four line terminators, vertical tab, form feed, space, no-break space, the byte order
  mark and the code units of the Unicode category of space separators.
\<close>

definition is_space :: "code_unit \<Rightarrow> bool" where
  "is_space c \<longleftrightarrow>
     c = 0x09 \<or> c = NL \<or> c = 0x0B \<or> c = 0x0C \<or> c = CR \<or> c = 0x20 \<or> c = 0xA0
     \<or> c = 0x1680 \<or> (0x2000 \<le> c \<and> c \<le> 0x200A) \<or> c = 0x2028 \<or> c = 0x2029
     \<or> c = 0x202F \<or> c = 0x205F \<or> c = 0x3000 \<or> c = 0xFEFF"

definition trim :: "ustring \<Rightarrow> ustring" where
  "trim s = rev (dropWhile is_space (rev (dropWhile is_space s)))"

text \<open>\<^verbatim>\<open>s.split("\n")\<close>: the empty string splits into one empty line.\<close>

fun split_nl :: "ustring \<Rightarrow> ustring list" where
  "split_nl [] = [[]]"
| "split_nl (c # cs) =
     (if c = NL then [] # split_nl cs
      else (case split_nl cs of [] \<Rightarrow> [[c]] | l # ls \<Rightarrow> (c # l) # ls))"

text \<open>\<^verbatim>\<open>parts.join(sep)\<close>.\<close>

fun join :: "ustring \<Rightarrow> ustring list \<Rightarrow> ustring" where
  "join sep [] = []"
| "join sep [l] = l"
| "join sep (l # ls) = l @ sep @ join sep ls"

text \<open>
  \<^verbatim>\<open>Array.prototype.slice\<close> and \<^verbatim>\<open>String.prototype.slice\<close>: a negative index
  counts from the end, and every index is clamped to the range of the sequence.
\<close>

definition rel_index :: "int \<Rightarrow> nat \<Rightarrow> nat" where
  "rel_index k len = (if k < 0 then nat (max (int len + k) 0) else min (nat k) len)"

definition slice :: "int \<Rightarrow> int \<Rightarrow> 'a list \<Rightarrow> 'a list" where
  "slice start fin xs =
     (let from = rel_index start (length xs); upto = rel_index fin (length xs)
      in take (upto - from) (drop from xs))"

definition slice_from :: "int \<Rightarrow> 'a list \<Rightarrow> 'a list" where
  "slice_from start xs = drop (rel_index start (length xs)) xs"

text \<open>\<^verbatim>\<open>Math.ceil(k / 2)\<close> and \<^verbatim>\<open>Math.floor(k / 2)\<close> on an integer \<open>k\<close>.\<close>

definition ceil_half :: "int \<Rightarrow> int" where
  "ceil_half k = - ((- k) div 2)"

definition floor_half :: "int \<Rightarrow> int" where
  "floor_half k = k div 2"

section \<open>Limits and preview helpers\<close>

text \<open>
  A limit is a number of the host language: an integer, or
  \<^verbatim>\<open>Number.POSITIVE_INFINITY\<close>, which the overall pass of the context builder passes
  as its line limit.
\<close>

datatype limit = Finite int | PosInfinity

datatype TruncateMode = Start | End | Middle

record PreviewResult =
  preview :: ustring
  truncated :: bool
  totalLines :: nat
  totalChars :: nat
  previewLines :: nat
  previewChars :: nat

record PreviewOptions =
  maxLines :: limit
  maxChars :: limit
  mode :: TruncateMode

definition marker :: ustring where
  "marker = str ''... (truncated) ...''"

definition normalizeContent :: "ustring \<Rightarrow> ustring" where
  "normalizeContent content = trim content"

text \<open>
  \<^verbatim>\<open>truncateLines\<close> returns the object \<^verbatim>\<open>{ lines, truncated }\<close>, here a pair.
  With an infinite limit the first guard \<^verbatim>\<open>lines.length <= maxLines\<close> always holds.
\<close>

fun truncateLines :: "ustring list \<Rightarrow> limit \<Rightarrow> TruncateMode \<Rightarrow> ustring list \<times> bool" where
  "truncateLines lines PosInfinity m = (lines, False)"
| "truncateLines lines (Finite maxL) m =
     (if maxL \<le> 0 \<or> int (length lines) \<le> maxL then (lines, False)
      else if m = End then (slice_from (- maxL) lines, True)
      else if m = Middle \<and> maxL > 1 then
        (let keep = maxL - 1;
             headCount = ceil_half keep;
             tailCount = floor_half keep;
             head = slice 0 headCount lines;
             tail = (if tailCount > 0 then slice_from (- tailCount) lines else [])
         in (head @ [marker] @ tail, True))
      else (slice 0 maxL lines, True))"

text \<open>\<^verbatim>\<open>truncateText\<close> returns the object \<^verbatim>\<open>{ text, truncated }\<close>, here a pair.\<close>

fun truncateText :: "ustring \<Rightarrow> limit \<Rightarrow> TruncateMode \<Rightarrow> ustring \<times> bool" where
  "truncateText text PosInfinity m = (text, False)"
| "truncateText text (Finite maxC) m =
     (if maxC \<le> 0 \<or> int (length text) \<le> maxC then (text, False)
      else if m = End then (slice_from (- maxC) text, True)
      else if m = Middle \<and> maxC > 10 then
        (let keep = maxC - int (length marker) in
         if keep > 0 then
           (let headCount = ceil_half keep;
                tailCount = floor_half keep
            in (slice 0 headCount text @ marker
                  @ slice_from (int (length text) - tailCount) text, True))
         else (slice 0 maxC text, True))
      else (slice 0 maxC text, True))"

definition buildPreview :: "ustring \<Rightarrow> PreviewOptions \<Rightarrow> PreviewResult" where
  "buildPreview content options =
     (let normalized = normalizeContent content in
      if normalized = [] then
        \<lparr>preview = [], truncated = False, totalLines = 0, totalChars = 0,
         previewLines = 0, previewChars = 0\<rparr>
      else
        (let lines = split_nl normalized;
             lineResult = truncateLines lines (maxLines options) (mode options);
             text = join [NL] (fst lineResult);
             charResult = truncateText text (maxChars options) (mode options);
             pv = fst charResult
         in \<lparr>preview = pv,
             truncated = (snd lineResult \<or> snd charResult),
             totalLines = length lines,
             totalChars = length normalized,
             previewLines = (if pv = [] then 0 else length (split_nl pv)),
             previewChars = length pv\<rparr>))"

section \<open>Scratchpad helpers\<close>

record ScratchpadItem =
  "done" :: bool
  "text" :: ustring
  meta :: ustring

text \<open>
  The code units that the regular-expression atom \<^verbatim>\<open>.\<close> does not match: line feed,
  carriage return, line separator (U+2028) and paragraph separator (U+2029).
\<close>

definition line_terminator :: "code_unit \<Rightarrow> bool" where
  "line_terminator c \<longleftrightarrow> c = NL \<or> c = CR \<or> c = 0x2028 \<or> c = 0x2029"

text \<open>
  The match of \<^verbatim>\<open>/^- \[([ xX])\] (.+)$/\<close> on a line: the two capture groups, when
  the line matches.
\<close>

fun match_item :: "ustring \<Rightarrow> (code_unit \<times> ustring) option" where
  "match_item (c1 # c2 # c3 # mk # c5 # c6 # rest) =
     (if c1 = CU CHR ''-'' \<and> c2 = CU CHR '' '' \<and> c3 = CU CHR ''[''
         \<and> (mk = CU CHR '' '' \<or> mk = CU CHR ''x'' \<or> mk = CU CHR ''X'')
         \<and> c5 = CU CHR '']'' \<and> c6 = CU CHR '' ''
         \<and> rest \<noteq> [] \<and> list_all (\<lambda>c. \<not> line_terminator c) rest
      then Some (mk, rest) else None)"
| "match_item _ = None"

text \<open>The test \<^verbatim>\<open>/^<!--.*-->$/\<close> on a line.\<close>

definition match_meta :: "ustring \<Rightarrow> bool" where
  "match_meta l \<longleftrightarrow>
     7 \<le> length l \<and> take 4 l = str ''<!--'' \<and> drop (length l - 3) l = str ''-->''
     \<and> list_all (\<lambda>c. \<not> line_terminator c) (take (length l - 7) (drop 4 l))"

text \<open>\<^verbatim>\<open>toLowerCase\<close> on the one character captured by the class \<^verbatim>\<open>[ xX]\<close>.\<close>

definition toLowerCase :: "code_unit \<Rightarrow> code_unit" where
  "toLowerCase c = (if c = CU CHR ''X'' then CU CHR ''x'' else c)"

text \<open>
  The loop of \<^verbatim>\<open>parseScratchpad\<close> over the lines; \<open>prev\<close> is the line before the
  current one (\<^verbatim>\<open>lines[i - 1]\<close>), absent at index 0.
\<close>

fun parse_lines :: "ustring option \<Rightarrow> ustring list \<Rightarrow> ScratchpadItem list" where
  "parse_lines prev [] = []"
| "parse_lines prev (line # rest) =
     (case match_item line of
        Some (mk, txt) \<Rightarrow>
          \<lparr>done = (toLowerCase mk = CU CHR ''x''),
           text = txt,
           meta = (case prev of
                     Some p \<Rightarrow> if match_meta p then p else []
                   | None \<Rightarrow> [])\<rparr>
          # parse_lines (Some line) rest
      | None \<Rightarrow> parse_lines (Some line) rest)"

definition parseScratchpad :: "ustring \<Rightarrow> ScratchpadItem list" where
  "parseScratchpad content = parse_lines None (split_nl content)"

text \<open>The lines that \<^verbatim>\<open>serializeScratchpad\<close> pushes for one item.\<close>

definition item_lines :: "ScratchpadItem \<Rightarrow> ustring list" where
  "item_lines item =
     (if meta item \<noteq> [] then [meta item] else [])
     @ [str ''- '' @ (if done item then str ''[x]'' else str ''[ ]'') @ str '' '' @ text item]"

definition serializeScratchpad :: "ScratchpadItem list \<Rightarrow> ustring" where
  "serializeScratchpad items =
     join [NL] ([str ''# Scratchpad'', []] @ concat (map item_lines items)) @ [NL]"

text \<open>
  The items that the on-disk format can hold: a non-empty text without line terminator,
  and a meta that is empty or a whole comment line.
\<close>

definition roundtrip_item :: "ScratchpadItem \<Rightarrow> bool" where
  "roundtrip_item item \<longleftrightarrow>
     text item \<noteq> [] \<and> list_all (\<lambda>c. \<not> line_terminator c) (text item)
     \<and> (meta item = [] \<or> match_meta (meta item))"

section \<open>Context builder\<close>

definition CONTEXT_LONG_TERM_MAX_CHARS :: int where "CONTEXT_LONG_TERM_MAX_CHARS = 4000"
definition CONTEXT_LONG_TERM_MAX_LINES :: int where "CONTEXT_LONG_TERM_MAX_LINES = 150"
definition CONTEXT_SCRATCHPAD_MAX_CHARS :: int where "CONTEXT_SCRATCHPAD_MAX_CHARS = 2000"
definition CONTEXT_SCRATCHPAD_MAX_LINES :: int where "CONTEXT_SCRATCHPAD_MAX_LINES = 120"
definition CONTEXT_DAILY_MAX_CHARS :: int where "CONTEXT_DAILY_MAX_CHARS = 3000"
definition CONTEXT_DAILY_MAX_LINES :: int where "CONTEXT_DAILY_MAX_LINES = 120"
definition CONTEXT_SEARCH_MAX_CHARS :: int where "CONTEXT_SEARCH_MAX_CHARS = 2500"
definition CONTEXT_SEARCH_MAX_LINES :: int where "CONTEXT_SEARCH_MAX_LINES = 80"
definition CONTEXT_MAX_CHARS :: int where "CONTEXT_MAX_CHARS = 16000"

text \<open>A non-negative integer substituted into a template literal: its decimal digits.\<close>

fun show_nat :: "nat \<Rightarrow> ustring" where
  "show_nat n =
     (if n < 10 then [str ''0123456789'' ! n]
      else show_nat (n div 10) @ [str ''0123456789'' ! (n mod 10)])"

declare show_nat.simps [simp del]

definition section_note :: "PreviewResult \<Rightarrow> ustring" where
  "section_note result =
     (if truncated result then
        [NL, NL] @ str ''[truncated: showing '' @ show_nat (previewLines result) @ str ''/''
        @ show_nat (totalLines result) @ str '' lines, '' @ show_nat (previewChars result) @ str ''/''
        @ show_nat (totalChars result) @ str '' chars]''
      else [])"

definition formatContextSection ::
    "ustring \<Rightarrow> ustring \<Rightarrow> TruncateMode \<Rightarrow> limit \<Rightarrow> limit \<Rightarrow> ustring" where
  "formatContextSection label content m maxL maxC =
     (let result = buildPreview content \<lparr>maxLines = maxL, maxChars = maxC, mode = m\<rparr> in
      if preview result = [] then []
      else label @ [NL, NL] @ preview result @ section_note result)"

text \<open>
  The backing store as the context builder reads it: the files under the memory
  directory by relative path (a missing or unreadable file reads as \<open>None\<close>), and the two
  date strings of the clock, \<^verbatim>\<open>todayStr()\<close> and \<^verbatim>\<open>yesterdayStr()\<close>. The call of
  \<^verbatim>\<open>ensureDirs\<close> creates directories and changes nothing that is read.
\<close>

record Env =
  files :: "ustring \<rightharpoonup> ustring"
  today :: ustring
  yesterday :: ustring

definition SCRATCHPAD_FILE :: ustring where "SCRATCHPAD_FILE = str ''SCRATCHPAD.md''"
definition MEMORY_FILE :: ustring where "MEMORY_FILE = str ''MEMORY.md''"

definition dailyPath :: "ustring \<Rightarrow> ustring" where
  "dailyPath date = str ''daily/'' @ date @ str ''.md''"

definition readFileSafe :: "Env \<Rightarrow> ustring \<Rightarrow> ustring option" where
  "readFileSafe env filePath = files env filePath"

text \<open>
  The sections pushed by the scratchpad block of \<^verbatim>\<open>buildMemoryContext\<close>; the test
  \<^verbatim>\<open>scratchpad?.trim()\<close> holds for a string that is present and not blank.
\<close>

definition scratchpad_sections :: "ustring option \<Rightarrow> ustring list" where
  "scratchpad_sections scratchpad =
     (case scratchpad of
        None \<Rightarrow> []
      | Some content \<Rightarrow>
          if trim content \<noteq> [] then
            (let openItems = filter (\<lambda>i. \<not> done i) (parseScratchpad content) in
             if length openItems > 0 then
               (let serialized = serializeScratchpad openItems;
                    sec = formatContextSection (str ''## SCRATCHPAD.md (working context)'') serialized
                            Start (Finite CONTEXT_SCRATCHPAD_MAX_LINES) (Finite CONTEXT_SCRATCHPAD_MAX_CHARS)
                in if sec \<noteq> [] then [sec] else [])
             else [])
          else [])"

text \<open>The sections pushed by one of the four blocks that format a source as it is.\<close>

definition source_sections ::
    "ustring \<Rightarrow> ustring option \<Rightarrow> TruncateMode \<Rightarrow> int \<Rightarrow> int \<Rightarrow> ustring list" where
  "source_sections label source m maxL maxC =
     (case source of
        None \<Rightarrow> []
      | Some content \<Rightarrow>
          if trim content \<noteq> [] then
            (let sec = formatContextSection label content m (Finite maxL) (Finite maxC)
             in if sec \<noteq> [] then [sec] else [])
          else [])"

definition overall_note :: "PreviewResult \<Rightarrow> ustring" where
  "overall_note result =
     (if truncated result then
        [NL, NL] @ str ''[truncated overall context: showing '' @ show_nat (previewChars result)
        @ str ''/'' @ show_nat (totalChars result) @ str '' chars]''
      else [])"

definition divider :: ustring where
  "divider = [NL, NL] @ str ''---'' @ [NL, NL]"

definition heading :: ustring where
  "heading = str ''# Memory'' @ [NL, NL]"

definition overall_options :: PreviewOptions where
  "overall_options = \<lparr>maxLines = PosInfinity, maxChars = Finite CONTEXT_MAX_CHARS, mode = Start\<rparr>"

text \<open>The end of \<^verbatim>\<open>buildMemoryContext\<close>, from the test on the number of sections.\<close>

definition finish_context :: "ustring list \<Rightarrow> ustring" where
  "finish_context sections =
     (if length sections = 0 then []
      else
        (let context = heading @ join divider sections in
         if int (length context) > CONTEXT_MAX_CHARS then
           (let result = buildPreview context overall_options
            in preview result @ overall_note result)
         else context))"

text \<open>The four blocks that format a source as it is, in the order of the source text.\<close>

definition today_sections :: "Env \<Rightarrow> ustring list" where
  "today_sections env =
     source_sections (str ''## Daily log: '' @ today env @ str '' (today)'')
       (readFileSafe env (dailyPath (today env))) End
       CONTEXT_DAILY_MAX_LINES CONTEXT_DAILY_MAX_CHARS"

definition search_sections :: "ustring option \<Rightarrow> ustring list" where
  "search_sections searchResults =
     source_sections (str ''## Relevant memories (auto-retrieved)'') searchResults Start
       CONTEXT_SEARCH_MAX_LINES CONTEXT_SEARCH_MAX_CHARS"

definition long_term_sections :: "Env \<Rightarrow> ustring list" where
  "long_term_sections env =
     source_sections (str ''## MEMORY.md (long-term)'') (readFileSafe env MEMORY_FILE) Middle
       CONTEXT_LONG_TERM_MAX_LINES CONTEXT_LONG_TERM_MAX_CHARS"

definition yesterday_sections :: "Env \<Rightarrow> ustring list" where
  "yesterday_sections env =
     source_sections (str ''## Daily log: '' @ yesterday env @ str '' (yesterday)'')
       (readFileSafe env (dailyPath (yesterday env))) End
       CONTEXT_DAILY_MAX_LINES CONTEXT_DAILY_MAX_CHARS"

definition collect_sections :: "Env \<Rightarrow> ustring option \<Rightarrow> ustring list" where
  "collect_sections env searchResults =
     scratchpad_sections (readFileSafe env SCRATCHPAD_FILE)
     @ today_sections env
     @ search_sections searchResults
     @ long_term_sections env
     @ yesterday_sections env"

definition buildMemoryContext :: "Env \<Rightarrow> ustring option \<Rightarrow> ustring" where
  "buildMemoryContext env searchResults = finish_context (collect_sections env searchResults)"

text \<open>\<^verbatim>\<open>s.startsWith(p)\<close> and \<^verbatim>\<open>s.includes(sub)\<close>.\<close>

fun startsWith :: "ustring \<Rightarrow> ustring \<Rightarrow> bool" where
  "startsWith s [] = True"
| "startsWith [] (p # ps) = False"
| "startsWith (c # cs) (p # ps) = (c = p \<and> startsWith cs ps)"

fun str_includes :: "ustring \<Rightarrow> ustring \<Rightarrow> bool" where
  "str_includes [] sub = (sub = [])"
| "str_includes (c # cs) sub = (startsWith (c # cs) sub \<or> str_includes cs sub)"

section \<open>The search subprocess and its output\<close>

text \<open>
  \<^verbatim>\<open>JSON.parse\<close> of the host language, following the JSON grammar (ECMA-404). A number
  is kept as its lexeme, and an escape \<^verbatim>\<open>\uXXXX\<close> is the code unit of its four
  hexadecimal digits. The recursion runs on fuel; \<open>OutOfFuel\<close> is kept apart from
  \<open>SyntaxError\<close>, the exception of \<^verbatim>\<open>JSON.parse\<close>, and \<open>JSON_parse\<close> gives enough
  fuel never to return it (lemma \<open>JSON_parse_total\<close>).
\<close>

datatype json =
    JNull
  | JBool bool
  | JNumber ustring
  | JString ustring
  | JArray "json list"
  | JObject "(ustring \<times> json) list"

datatype parse_error = SyntaxError | OutOfFuel

definition json_ws :: "code_unit \<Rightarrow> bool" where
  "json_ws c \<longleftrightarrow> c = 0x20 \<or> c = 0x09 \<or> c = NL \<or> c = CR"

definition skip_ws :: "ustring \<Rightarrow> ustring" where
  "skip_ws s = dropWhile json_ws s"

definition is_digit :: "code_unit \<Rightarrow> bool" where
  "is_digit c \<longleftrightarrow> CU CHR ''0'' \<le> c \<and> c \<le> CU CHR ''9''"

text \<open>The value of a hexadecimal digit.\<close>

definition hex_value :: "code_unit \<Rightarrow> nat option" where
  "hex_value c =
     (if is_digit c then Some (c - CU CHR ''0'')
      else if CU CHR ''a'' \<le> c \<and> c \<le> CU CHR ''f'' then Some (c - CU CHR ''a'' + 10)
      else if CU CHR ''A'' \<le> c \<and> c \<le> CU CHR ''F'' then Some (c - CU CHR ''A'' + 10)
      else None)"

text \<open>The character denoted by a one-letter escape.\<close>

definition unescape :: "code_unit \<Rightarrow> code_unit option" where
  "unescape e =
     (if e = 0x22 then Some (0x22)
      else if e = 0x5C then Some (0x5C)
      else if e = CU CHR ''/'' then Some (CU CHR ''/'')
      else if e = CU CHR ''b'' then Some (0x08)
      else if e = CU CHR ''f'' then Some (0x0C)
      else if e = CU CHR ''n'' then Some NL
      else if e = CU CHR ''r'' then Some CR
      else if e = CU CHR ''t'' then Some (0x09)
      else None)"

definition cons_result :: "code_unit \<Rightarrow> (ustring \<times> ustring) option \<Rightarrow> (ustring \<times> ustring) option" where
  "cons_result c r = (case r of None \<Rightarrow> None | Some (t, rest) \<Rightarrow> Some (c # t, rest))"

text \<open>The characters of a string literal after its opening quote, and what follows it.\<close>

fun lex_string :: "ustring \<Rightarrow> (ustring \<times> ustring) option" where
  "lex_string [] = None"
| "lex_string (c # cs) =
     (if c = 0x22 then Some ([], cs)
      else if c = 0x5C then
        (case cs of
           [] \<Rightarrow> None
         | e # r \<Rightarrow>
             if e = CU CHR ''u'' then
               (case r of
                  h1 # h2 # h3 # h4 # r' \<Rightarrow>
                    (case (hex_value h1, hex_value h2, hex_value h3, hex_value h4) of
                       (Some x1, Some x2, Some x3, Some x4) \<Rightarrow>
                         cons_result (4096 * x1 + 256 * x2 + 16 * x3 + x4) (lex_string r')
                     | _ \<Rightarrow> None)
                | _ \<Rightarrow> None)
             else
               (case unescape e of
                  None \<Rightarrow> None
                | Some d \<Rightarrow> cons_result d (lex_string r)))
      else if c < 0x20 then None
      else cons_result c (lex_string cs))"

text \<open>The lexeme of a number at the head of the input, and what follows it.\<close>

definition lex_digits :: "ustring \<Rightarrow> (ustring \<times> ustring) option" where
  "lex_digits s = (if takeWhile is_digit s = [] then None
                   else Some (takeWhile is_digit s, dropWhile is_digit s))"

definition lex_int :: "ustring \<Rightarrow> (ustring \<times> ustring) option" where
  "lex_int s =
     (case s of
        [] \<Rightarrow> None
      | c # cs \<Rightarrow> if c = CU CHR ''0'' then Some ([c], cs) else lex_digits s)"

definition lex_frac :: "ustring \<Rightarrow> (ustring \<times> ustring) option" where
  "lex_frac s =
     (case s of
        [] \<Rightarrow> Some ([], s)
      | c # cs \<Rightarrow>
          if c = CU CHR ''.'' then
            (case lex_digits cs of None \<Rightarrow> None | Some (ds, rest) \<Rightarrow> Some (c # ds, rest))
          else Some ([], s))"

definition lex_exp :: "ustring \<Rightarrow> (ustring \<times> ustring) option" where
  "lex_exp s =
     (case s of
        [] \<Rightarrow> Some ([], s)
      | c # cs \<Rightarrow>
          if c = CU CHR ''e'' \<or> c = CU CHR ''E'' then
            (case cs of
               [] \<Rightarrow> None
             | g # gs \<Rightarrow>
                 if g = CU CHR ''+'' \<or> g = CU CHR ''-'' then
                   (case lex_digits gs of None \<Rightarrow> None | Some (ds, rest) \<Rightarrow> Some (c # g # ds, rest))
                 else
                   (case lex_digits cs of None \<Rightarrow> None | Some (ds, rest) \<Rightarrow> Some (c # ds, rest)))
          else Some ([], s))"

definition lex_number :: "ustring \<Rightarrow> (ustring \<times> ustring) option" where
  "lex_number s =
     (let sign = (if s \<noteq> [] \<and> hd s = CU CHR ''-'' then str ''-'' else []);
          s0 = drop (length sign) s
      in case lex_int s0 of
           None \<Rightarrow> None
         | Some (i, s1) \<Rightarrow>
             (case lex_frac s1 of
                None \<Rightarrow> None
              | Some (f, s2) \<Rightarrow>
                  (case lex_exp s2 of
                     None \<Rightarrow> None
                   | Some (e, s3) \<Rightarrow> Some (sign @ i @ f @ e, s3))))"

definition expect_literal :: "ustring \<Rightarrow> json \<Rightarrow> ustring \<Rightarrow> parse_error + (json \<times> ustring)" where
  "expect_literal lit v s =
     (if take (length lit) s = lit then Inr (v, drop (length lit) s) else Inl SyntaxError)"

fun parse_value :: "nat \<Rightarrow> ustring \<Rightarrow> parse_error + (json \<times> ustring)"
  and parse_elements :: "nat \<Rightarrow> ustring \<Rightarrow> parse_error + (json list \<times> ustring)"
  and parse_members :: "nat \<Rightarrow> ustring \<Rightarrow> parse_error + ((ustring \<times> json) list \<times> ustring)"
where
  "parse_value 0 s = Inl OutOfFuel"
| "parse_value (Suc n) s =
     (case skip_ws s of
        [] \<Rightarrow> Inl SyntaxError
      | c # cs \<Rightarrow>
          if c = CU CHR ''['' then
            (if skip_ws cs \<noteq> [] \<and> hd (skip_ws cs) = CU CHR '']'' then Inr (JArray [], tl (skip_ws cs))
             else (case parse_elements n cs of
                     Inl e \<Rightarrow> Inl e
                   | Inr (vs, rest) \<Rightarrow> Inr (JArray vs, rest)))
          else if c = CU CHR ''{'' then
            (if skip_ws cs \<noteq> [] \<and> hd (skip_ws cs) = CU CHR ''}'' then Inr (JObject [], tl (skip_ws cs))
             else (case parse_members n cs of
                     Inl e \<Rightarrow> Inl e
                   | Inr (kvs, rest) \<Rightarrow> Inr (JObject kvs, rest)))
          else if c = 0x22 then
            (case lex_string cs of
               None \<Rightarrow> Inl SyntaxError
             | Some (t, rest) \<Rightarrow> Inr (JString t, rest))
          else if c = CU CHR ''n'' then expect_literal (str ''null'') JNull (c # cs)
          else if c = CU CHR ''t'' then expect_literal (str ''true'') (JBool True) (c # cs)
          else if c = CU CHR ''f'' then expect_literal (str ''false'') (JBool False) (c # cs)
          else
            (case lex_number (c # cs) of
               None \<Rightarrow> Inl SyntaxError
             | Some (lexeme, rest) \<Rightarrow> Inr (JNumber lexeme, rest)))"
| "parse_elements 0 s = Inl OutOfFuel"
| "parse_elements (Suc n) s =
     (case parse_value n s of
        Inl e \<Rightarrow> Inl e
      | Inr (v, rest) \<Rightarrow>
          (case skip_ws rest of
             [] \<Rightarrow> Inl SyntaxError
           | c # cs \<Rightarrow>
               if c = CU CHR '','' then
                 (case parse_elements n cs of
                    Inl e \<Rightarrow> Inl e
                  | Inr (vs, rest') \<Rightarrow> Inr (v # vs, rest'))
               else if c = CU CHR '']'' then Inr ([v], cs)
               else Inl SyntaxError))"
| "parse_members 0 s = Inl OutOfFuel"
| "parse_members (Suc n) s =
     (case skip_ws s of
        [] \<Rightarrow> Inl SyntaxError
      | q # qs \<Rightarrow>
          if q \<noteq> 0x22 then Inl SyntaxError
          else
            (case lex_string qs of
               None \<Rightarrow> Inl SyntaxError
             | Some (k, rest) \<Rightarrow>
                 (case skip_ws rest of
                    [] \<Rightarrow> Inl SyntaxError
                  | colon # after \<Rightarrow>
                      if colon \<noteq> CU CHR '':'' then Inl SyntaxError
                      else
                        (case parse_value n after of
                           Inl e \<Rightarrow> Inl e
                         | Inr (v, rest') \<Rightarrow>
                             (case skip_ws rest' of
                                [] \<Rightarrow> Inl SyntaxError
                              | c # cs \<Rightarrow>
                                  if c = CU CHR '','' then
                                    (case parse_members n cs of
                                       Inl e \<Rightarrow> Inl e
                                     | Inr (kvs, rest2) \<Rightarrow> Inr ((k, v) # kvs, rest2))
                                  else if c = CU CHR ''}'' then Inr ([(k, v)], cs)
                                  else Inl SyntaxError)))))"

definition JSON_parse :: "ustring \<Rightarrow> parse_error + json" where
  "JSON_parse s =
     (case parse_value (Suc (2 * length s)) s of
        Inl e \<Rightarrow> Inl e
      | Inr (v, rest) \<Rightarrow> if skip_ws rest = [] then Inr v else Inl SyntaxError)"

text \<open>
  The value of the property \<open>k\<close> of a parsed object (a later duplicate of a key
  replaces an earlier one), and the test of \<^verbatim>\<open>??\<close> for \<^verbatim>\<open>null\<close> or
  \<^verbatim>\<open>undefined\<close>.
\<close>

definition property :: "ustring \<Rightarrow> (ustring \<times> json) list \<Rightarrow> json option" where
  "property k kvs = map_of (rev kvs) k"

fun nullish :: "json option \<Rightarrow> bool" where
  "nullish None = True"
| "nullish (Some JNull) = True"
| "nullish (Some v) = False"

datatype SearchMode = Keyword | Semantic | Deep

text \<open>What the callback of \<^verbatim>\<open>execFile\<close> receives.\<close>

record ExecResult =
  err :: "ustring option"
  stdout :: ustring
  stderr :: ustring

definition qmd_args :: "SearchMode \<Rightarrow> ustring \<Rightarrow> nat \<Rightarrow> ustring list" where
  "qmd_args m query limit =
     (let subcommand = (if m = Keyword then str ''search''
                        else if m = Semantic then str ''vsearch'' else str ''query'')
      in [subcommand, str ''--json'', str ''-c'', str ''pi-memory'', str ''-n'', show_nat limit, query])"

text \<open>
  The expression \<^verbatim>\<open>Array.isArray(parsed) ? parsed : (parsed.results ?? parsed.hits ?? [])\<close>;
  reading a property of \<^verbatim>\<open>null\<close> throws, which is \<open>None\<close> here.
\<close>

fun results_of :: "json \<Rightarrow> json option" where
  "results_of (JArray vs) = Some (JArray vs)"
| "results_of JNull = None"
| "results_of (JObject kvs) =
     (if \<not> nullish (property (str ''results'') kvs) then property (str ''results'') kvs
      else if \<not> nullish (property (str ''hits'') kvs) then property (str ''hits'') kvs
      else Some (JArray []))"
| "results_of v = Some (JArray [])"

text \<open>
  \<^verbatim>\<open>runQmdSearch\<close>, with the subprocess \<open>exec\<close> as a parameter: a rejected promise is
  \<open>Inl\<close> of the error message, a resolved one \<open>Inr\<close> of the results.
\<close>

definition runQmdSearch ::
    "(ustring \<Rightarrow> ustring list \<Rightarrow> ExecResult) \<Rightarrow> SearchMode \<Rightarrow> ustring \<Rightarrow> nat \<Rightarrow> ustring + json" where
  "runQmdSearch exec m query limit =
     (let out = exec (str ''qmd'') (qmd_args m query limit) in
      case err out of
        Some message \<Rightarrow> Inl (if trim (stderr out) \<noteq> [] then trim (stderr out) else message)
      | None \<Rightarrow>
          (case JSON_parse (stdout out) of
             Inl e \<Rightarrow> Inl (str ''Failed to parse qmd output: '' @ slice 0 200 (stdout out))
           | Inr parsed \<Rightarrow>
               (case results_of parsed of
                  None \<Rightarrow> Inl (str ''Failed to parse qmd output: '' @ slice 0 200 (stdout out))
                | Some results \<Rightarrow> Inr results)))"

text \<open>The raw outputs of the noisy-output scenario: terminal control sequences and status
  lines, and a two-element array of snippet records.\<close>

definition noise :: ustring where
  "noise = 0x1B # str ''[?25l Gathering information'' @ [NL]
           @ 0x1B # str ''[2K'' @ 0x1B # str ''[1A'' @ 0x1B # str ''[2K'' @ 0x1B # str ''[G downloaded'' @ [NL]"

definition payload :: ustring where
  \<open>payload = str ''[{"path": "MEMORY.md", "content": "Hello"}, {"path": "daily/2026-02-16.md", "content": "World"}]''\<close>

section \<open>Measures used in the proofs\<close>

text \<open>The number of newline characters in a string.\<close>

definition count_NL :: "ustring \<Rightarrow> nat" where
  "count_NL s = length (filter (\<lambda>c. c = NL) s)"

text \<open>
  The bound of the host language on the length of a string, \<open>2^53 - 1\<close> code units,
  for a source that may be absent.
\<close>

definition MAX_STRING_LENGTH :: nat where
  "MAX_STRING_LENGTH = 2 ^ 53 - 1"

fun within_string_limit :: "ustring option \<Rightarrow> bool" where
  "within_string_limit None = True"
| "within_string_limit (Some s) = (length s \<le> MAX_STRING_LENGTH)"

text \<open>The characters of a list of lines when each is followed by a newline.\<close>

definition total_len :: "ustring list \<Rightarrow> nat" where
  "total_len ls = sum_list (map (\<lambda>l. Suc (length l)) ls)"

text \<open>The characters of the line before an item when that line is its meta.\<close>

definition meta_cost :: "ustring option \<Rightarrow> nat" where
  "meta_cost prev = (case prev of None \<Rightarrow> 0 | Some p \<Rightarrow> if match_meta p then Suc (length p) else 0)"

section \<open>Properties of the string primitives\<close>

lemma ceil_half_ceiling: "ceil_half k = \<lceil>real_of_int k / 2\<rceil>"
  unfolding ceil_half_def by linarith

lemma floor_half_floor: "floor_half k = \<lfloor>real_of_int k / 2\<rfloor>"
  unfolding floor_half_def by linarith

lemma slice_0_take: "0 \<le> n \<Longrightarrow> slice 0 n xs = take (nat n) xs"
  by (simp add: slice_def rel_index_def Let_def min_def)

lemma slice_from_neg: "0 < n \<Longrightarrow> slice_from (- n) xs = drop (length xs - nat n) xs"
proof -
  assume "0 < n"
  then have "nat (max (int (length xs) + - n) 0) = length xs - nat n"
    by (simp add: max_def) linarith
  with \<open>0 < n\<close> show ?thesis
    by (simp add: slice_from_def rel_index_def)
qed

lemma slice_from_nonneg: "0 \<le> n \<Longrightarrow> slice_from n xs = drop (nat n) xs"
  by (simp add: slice_from_def rel_index_def min_def)

lemma split_nl_nonempty: "split_nl s \<noteq> []"
  by (induction s) (auto split: list.splits)

lemma join_split_nl: "join [NL] (split_nl s) = s"
proof (induction s)
  case Nil
  show ?case by simp
next
  case (Cons c cs)
  obtain l ls where r: "split_nl cs = l # ls"
    using split_nl_nonempty [of cs] by (cases "split_nl cs") auto
  with Cons show ?case
    by (cases ls) auto
qed

section \<open>Properties of the scratchpad format\<close>

lemma split_nl_line: "NL \<notin> set l \<Longrightarrow> split_nl (l @ NL # s) = l # split_nl s"
  by (induction l) auto

lemma split_nl_single: "NL \<notin> set l \<Longrightarrow> split_nl l = [l]"
  by (induction l) auto

lemma split_nl_join:
  "ls \<noteq> [] \<Longrightarrow> list_all (\<lambda>l. NL \<notin> set l) ls \<Longrightarrow> split_nl (join [NL] ls) = ls"
proof (induction ls)
  case Nil
  then show ?case by simp
next
  case (Cons l ls)
  then show ?case
    by (cases ls) (simp_all add: split_nl_single split_nl_line)
qed

lemma join_snoc: "ls \<noteq> [] \<Longrightarrow> join sep (ls @ [l]) = join sep ls @ sep @ l"
  by (induction sep ls rule: join.induct) auto

lemma match_meta_shape:
  assumes "match_meta l"
  shows "\<exists>mid. l = str ''<!--'' @ mid @ str ''-->'' \<and> list_all (\<lambda>c. \<not> line_terminator c) mid"
proof -
  let ?mid = "take (length l - 7) (drop 4 l)"
  from assms have len: "7 \<le> length l" and pre: "take 4 l = str ''<!--''"
    and suf: "drop (length l - 3) l = str ''-->''"
    and mid: "list_all (\<lambda>c. \<not> line_terminator c) ?mid"
    by (simp_all add: match_meta_def)
  have "drop (length l - 7) (drop 4 l) = drop (length l - 3) l"
    using len by (simp add: add.commute)
  then have "drop 4 l = ?mid @ str ''-->''"
    using suf append_take_drop_id [of "length l - 7" "drop 4 l"] by simp
  then have "l = str ''<!--'' @ ?mid @ str ''-->''"
    using pre append_take_drop_id [of 4 l] by simp
  with mid show ?thesis by blast
qed

lemma match_meta_no_NL: "match_meta l \<Longrightarrow> NL \<notin> set l"
  by (auto dest!: match_meta_shape simp: list_all_iff line_terminator_def)

lemma match_item_Some:
  assumes "match_item l = Some (mk, txt)"
  shows "l = str ''- ['' @ mk # str ''] '' @ txt" and "mk = CU CHR '' '' \<or> mk = CU CHR ''x'' \<or> mk = CU CHR ''X''"
    and "txt \<noteq> []" and "list_all (\<lambda>c. \<not> line_terminator c) txt"
  using assms by (cases l rule: match_item.cases; simp split: if_splits; blast)+

lemma match_meta_not_item: "match_meta l \<Longrightarrow> match_item l = None"
proof (rule ccontr)
  assume m: "match_meta l" and "match_item l \<noteq> None"
  then obtain mk body where "match_item l = Some (mk, body)" by auto
  then have "l = str ''- ['' @ mk # str ''] '' @ body" by (rule match_item_Some)
  then have "take 4 l \<noteq> str ''<!--''" by simp
  with m show False by (simp add: match_meta_def)
qed

lemma match_meta_nonempty: "match_meta l \<Longrightarrow> l \<noteq> []"
  by (auto simp: match_meta_def)

lemma match_item_checkbox:
  "txt \<noteq> [] \<Longrightarrow> list_all (\<lambda>c. \<not> line_terminator c) txt \<Longrightarrow>
     match_item (str ''- '' @ (if d then str ''[x]'' else str ''[ ]'') @ str '' '' @ txt)
       = Some (if d then CU CHR ''x'' else CU CHR '' '', txt)"
  by simp

lemma checkbox_not_meta:
  "\<not> match_meta (str ''- '' @ (if d then str ''[x]'' else str ''[ ]'') @ str '' '' @ txt)"
  by (simp add: match_meta_def)


lemma item_lines_no_NL:
  "roundtrip_item item \<Longrightarrow> list_all (\<lambda>l. NL \<notin> set l) (item_lines item)"
  by (auto simp: roundtrip_item_def item_lines_def list_all_iff line_terminator_def
      dest: match_meta_no_NL)

lemma parse_item_lines:
  assumes "roundtrip_item item" and "case prev of None \<Rightarrow> True | Some p \<Rightarrow> \<not> match_meta p"
  shows "parse_lines prev (item_lines item @ rest)
           = item # parse_lines (Some (last (item_lines item))) rest
         \<and> \<not> match_meta (last (item_lines item))"
proof -
  let ?box = "str ''- '' @ (if done item then str ''[x]'' else str ''[ ]'') @ str '' '' @ text item"
  from assms(1) have t: "text item \<noteq> []" "list_all (\<lambda>c. \<not> line_terminator c) (text item)"
    by (simp_all add: roundtrip_item_def)
  have box: "match_item ?box = Some (if done item then CU CHR ''x'' else CU CHR '' '', text item)"
    using t by (rule match_item_checkbox)
  have nm: "\<not> match_meta ?box" by (rule checkbox_not_meta)
  show ?thesis
  proof (cases "meta item = []")
    case True
    have "\<lparr>done = done item, text = text item, meta = []\<rparr> = item"
      using True by simp
    then show ?thesis
      using True box nm assms(2) unfolding item_lines_def
      by (cases prev) (simp_all add: toLowerCase_def del: match_item.simps)
  next
    case False
    with assms(1) have mm: "match_meta (meta item)" by (simp add: roundtrip_item_def)
    have "\<lparr>done = done item, text = text item, meta = meta item\<rparr> = item" by simp
    then show ?thesis
      using False box nm mm match_meta_not_item [OF mm] unfolding item_lines_def
      by (simp add: toLowerCase_def del: match_item.simps)
  qed
qed

lemma parse_serialized_lines:
  assumes "list_all roundtrip_item items" and "case prev of None \<Rightarrow> True | Some p \<Rightarrow> \<not> match_meta p"
  shows "parse_lines prev (concat (map item_lines items) @ [[]]) = items"
  using assms
proof (induction items arbitrary: prev)
  case Nil
  then show ?case by simp
next
  case (Cons item items)
  from Cons.prems have r: "roundtrip_item item" and rs: "list_all roundtrip_item items"
    by simp_all
  from parse_item_lines [OF r Cons.prems(2), of "concat (map item_lines items) @ [[]]"]
  have step: "parse_lines prev (item_lines item @ concat (map item_lines items) @ [[]])
                = item # parse_lines (Some (last (item_lines item))) (concat (map item_lines items) @ [[]])"
    and nm: "\<not> match_meta (last (item_lines item))"
    by simp_all
  have "parse_lines (Some (last (item_lines item))) (concat (map item_lines items) @ [[]]) = items"
    using Cons.IH [OF rs, of "Some (last (item_lines item))"] nm by simp
  with step show ?case by simp
qed

lemma split_nl_serialize:
  assumes "list_all roundtrip_item items"
  shows "split_nl (serializeScratchpad items)
           = [str ''# Scratchpad'', []] @ concat (map item_lines items) @ [[]]"
proof -
  let ?ls = "[str ''# Scratchpad'', []] @ concat (map item_lines items)"
  have nl: "list_all (\<lambda>l. NL \<notin> set l) (concat (map item_lines items))"
    using assms item_lines_no_NL by (induction items) auto
  have "serializeScratchpad items = join [NL] (?ls @ [[]])"
    unfolding serializeScratchpad_def by (subst join_snoc) simp_all
  moreover have "split_nl (join [NL] (?ls @ [[]])) = ?ls @ [[]]"
    by (rule split_nl_join) (use nl in simp_all)
  ultimately show ?thesis by simp
qed

lemma roundtrip_general:
  assumes "list_all roundtrip_item items"
  shows "parseScratchpad (serializeScratchpad items) = items"
proof -
  have "\<not> match_meta []" by (simp add: match_meta_def)
  then have "parse_lines (Some []) (concat (map item_lines items) @ [[]]) = items"
    using parse_serialized_lines [OF assms, of "Some []"] by simp
  then show ?thesis
    by (simp add: parseScratchpad_def split_nl_serialize [OF assms])
qed

lemma parse_lines_text_nonempty:
  "item \<in> set (parse_lines prev ls) \<Longrightarrow>
     text item \<noteq> [] \<and> list_all (\<lambda>c. \<not> line_terminator c) (text item)
     \<and> (meta item = [] \<or> match_meta (meta item))
     \<and> (\<exists>mk. (mk = CU CHR '' '' \<or> mk = CU CHR ''x'' \<or> mk = CU CHR ''X'')
            \<and> str ''- ['' @ mk # str ''] '' @ text item \<in> set ls)"
proof (induction ls arbitrary: prev)
  case Nil
  then show ?case by simp
next
  case (Cons l ls)
  show ?case
  proof (cases "match_item l")
    case None
    with Cons show ?thesis by auto
  next
    case (Some r)
    obtain mk body where r: "r = (mk, body)" by (cases r)
    note ms = match_item_Some [OF Some [unfolded r]]
    from Cons.prems Some r
    consider "item = \<lparr>done = (toLowerCase mk = CU CHR ''x''), text = body,
                 meta = (case prev of Some p \<Rightarrow> if match_meta p then p else [] | None \<Rightarrow> [])\<rparr>"
      | "item \<in> set (parse_lines (Some l) ls)"
      by auto
    then show ?thesis
    proof cases
      case 1
      then show ?thesis
        using ms by (cases prev) auto
    next
      case 2
      with Cons.IH show ?thesis by auto
    qed
  qed
qed

section \<open>Properties of the truncation primitives\<close>

lemma half_sum: "ceil_half k + floor_half k = k"
  unfolding ceil_half_def floor_half_def by linarith

lemma ceil_half_bounds: "0 < k \<Longrightarrow> 0 < ceil_half k \<and> ceil_half k \<le> k"
  unfolding ceil_half_def by linarith

lemma floor_half_bounds: "0 < k \<Longrightarrow> 0 \<le> floor_half k \<and> floor_half k < k"
  unfolding floor_half_def by linarith

lemma split_nl_lines_no_NL: "list_all (\<lambda>l. NL \<notin> set l) (split_nl s)"
  by (induction s) (auto split: list.splits)

lemma length_split_nl: "length (split_nl s) = Suc (count_NL s)"
  by (induction s) (auto simp: count_NL_def split: list.splits)

lemma count_NL_append: "count_NL (a @ b) = count_NL a + count_NL b"
  by (simp add: count_NL_def)

lemma count_NL_take_drop:
  assumes "a \<le> b"
  shows "count_NL (take a s) + count_NL (drop b s) \<le> count_NL s"
proof -
  have "s = take a s @ take (b - a) (drop a s) @ drop b s"
    using assms by (metis add_diff_inverse_nat append_take_drop_id drop_drop add.commute not_less)
  then have "count_NL s = count_NL (take a s) + count_NL (take (b - a) (drop a s)) + count_NL (drop b s)"
    by (metis count_NL_append add.assoc)
  then show ?thesis by simp
qed

lemma count_NL_take: "count_NL (take a s) \<le> count_NL s"
  using count_NL_take_drop [of a "length s" s] by (cases "a \<le> length s") (simp_all add: count_NL_def)

lemma count_NL_drop: "count_NL (drop b s) \<le> count_NL s"
  using count_NL_take_drop [of 0 b s] by (simp add: count_NL_def)

lemma count_NL_marker: "count_NL marker = 0"
  by (simp add: count_NL_def marker_def)

lemma truncateLines_flag:
  "snd (truncateLines lines (Finite maxL) m) = (0 < maxL \<and> maxL < int (length lines))"
  by (auto simp: Let_def)

lemma truncateText_flag:
  "snd (truncateText s (Finite maxC) m) = (0 < maxC \<and> maxC < int (length s))"
  by (auto simp: Let_def)

lemma truncateLines_budget:
  assumes "0 < maxL" and "lines \<noteq> []" and "list_all (\<lambda>l. NL \<notin> set l) lines"
  shows "fst (truncateLines lines (Finite maxL) m) \<noteq> []"
    and "int (length (fst (truncateLines lines (Finite maxL) m))) \<le> maxL"
    and "list_all (\<lambda>l. NL \<notin> set l) (fst (truncateLines lines (Finite maxL) m))"
proof -
  have nl: "list_all (\<lambda>l. NL \<notin> set l) (take a lines)" "list_all (\<lambda>l. NL \<notin> set l) (drop a lines)" for a
    using assms(3) by (auto simp: list_all_iff dest: in_set_takeD in_set_dropD)
  have mk: "NL \<notin> set marker" by (simp add: marker_def)
  consider (keep) "int (length lines) \<le> maxL"
    | (fromEnd) "maxL < int (length lines)" "m = End"
    | (middle) "maxL < int (length lines)" "m = Middle" "1 < maxL"
    | (start) "maxL < int (length lines)" "m \<noteq> End" "\<not> (m = Middle \<and> 1 < maxL)"
    by fastforce
  then have "fst (truncateLines lines (Finite maxL) m) \<noteq> []
     \<and> int (length (fst (truncateLines lines (Finite maxL) m))) \<le> maxL
     \<and> list_all (\<lambda>l. NL \<notin> set l) (fst (truncateLines lines (Finite maxL) m))"
  proof cases
    case keep
    then show ?thesis using assms by simp
  next
    case fromEnd
    then show ?thesis using assms(1) nl by (simp add: slice_from_neg)
  next
    case middle
    let ?keep = "maxL - 1"
    have k: "0 < ?keep" using middle by simp
    note c = ceil_half_bounds [OF k] and f = floor_half_bounds [OF k]
    have tl: "(if 0 < floor_half ?keep then slice_from (- floor_half ?keep) lines else [])
                = drop (length lines - nat (floor_half ?keep)) lines"
      using f by (simp add: slice_from_neg)
    have eq: "fst (truncateLines lines (Finite maxL) m)
                = take (nat (ceil_half ?keep)) lines @ [marker]
                  @ drop (length lines - nat (floor_half ?keep)) lines"
      using middle tl c by (simp add: Let_def slice_0_take)
    have "int (length (take (nat (ceil_half ?keep)) lines @ [marker]
                  @ drop (length lines - nat (floor_half ?keep)) lines)) = maxL"
      using middle c f half_sum [of ?keep] by (simp add: min_def) linarith
    then show ?thesis unfolding eq using nl mk by simp
  next
    case start
    then show ?thesis using assms(1,2) nl by (auto simp: slice_0_take)
  qed
  then show "fst (truncateLines lines (Finite maxL) m) \<noteq> []"
    and "int (length (fst (truncateLines lines (Finite maxL) m))) \<le> maxL"
    and "list_all (\<lambda>l. NL \<notin> set l) (fst (truncateLines lines (Finite maxL) m))"
    by simp_all
qed

lemma truncateText_budget:
  assumes "0 < maxC"
  shows "int (length (fst (truncateText s (Finite maxC) m))) \<le> maxC"
    and "count_NL (fst (truncateText s (Finite maxC) m)) \<le> count_NL s"
proof -
  consider (keep) "int (length s) \<le> maxC"
    | (fromEnd) "maxC < int (length s)" "m = End"
    | (middle) "maxC < int (length s)" "m = Middle" "10 < maxC" "0 < maxC - int (length marker)"
    | (start) "maxC < int (length s)" "m \<noteq> End"
        "\<not> (m = Middle \<and> 10 < maxC \<and> 0 < maxC - int (length marker))"
    by fastforce
  then have "int (length (fst (truncateText s (Finite maxC) m))) \<le> maxC
     \<and> count_NL (fst (truncateText s (Finite maxC) m)) \<le> count_NL s"
  proof cases
    case keep
    then show ?thesis by simp
  next
    case fromEnd
    then show ?thesis using assms by (simp add: slice_from_neg count_NL_drop)
  next
    case middle
    let ?keep = "maxC - int (length marker)"
    have k: "0 < ?keep" using middle by simp
    note c = ceil_half_bounds [OF k] and f = floor_half_bounds [OF k]
    have tl: "slice_from (int (length s) - floor_half ?keep) s
                = drop (length s - nat (floor_half ?keep)) s"
    proof -
      have "nat (int (length s) - floor_half ?keep) = length s - nat (floor_half ?keep)"
        using f middle by linarith
      then show ?thesis using f middle by (simp add: slice_from_nonneg)
    qed
    have eq: "fst (truncateText s (Finite maxC) m)
                = take (nat (ceil_half ?keep)) s @ marker
                  @ drop (length s - nat (floor_half ?keep)) s"
      using middle tl c by (simp add: Let_def slice_0_take)
    have hl: "length (take (nat (ceil_half ?keep)) s) = nat (ceil_half ?keep)"
      using middle c by simp linarith
    have dl: "length (drop (length s - nat (floor_half ?keep)) s) = nat (floor_half ?keep)"
      using middle f by simp linarith
    have "length (take (nat (ceil_half ?keep)) s @ marker
                  @ drop (length s - nat (floor_half ?keep)) s)
            = nat (ceil_half ?keep) + length marker + nat (floor_half ?keep)"
      by (simp only: length_append hl dl add.assoc)
    also have "int \<dots> = maxC"
      using c f half_sum [of ?keep] by linarith
    finally have len: "int (length (take (nat (ceil_half ?keep)) s @ marker
                  @ drop (length s - nat (floor_half ?keep)) s)) = maxC" .
    have "nat (ceil_half ?keep) \<le> length s - nat (floor_half ?keep)"
      using middle c f half_sum [of ?keep] by linarith
    from count_NL_take_drop [OF this]
    have cn: "count_NL (take (nat (ceil_half ?keep)) s @ marker
                  @ drop (length s - nat (floor_half ?keep)) s) \<le> count_NL s"
      by (simp add: count_NL_append count_NL_marker)
    show ?thesis unfolding eq using len cn by (simp only: order_refl simp_thms)
  next
    case start
    then show ?thesis using assms by (auto simp: slice_0_take count_NL_take)
  qed
  then show "int (length (fst (truncateText s (Finite maxC) m))) \<le> maxC"
    and "count_NL (fst (truncateText s (Finite maxC) m)) \<le> count_NL s"
    by simp_all
qed

lemma buildPreview_budget:
  assumes "0 < maxL" and "0 < maxC"
  shows "int (previewChars (buildPreview content \<lparr>maxLines = Finite maxL, maxChars = Finite maxC, mode = m\<rparr>)) \<le> maxC
       \<and> int (previewLines (buildPreview content \<lparr>maxLines = Finite maxL, maxChars = Finite maxC, mode = m\<rparr>)) \<le> maxL
       \<and> (truncated (buildPreview content \<lparr>maxLines = Finite maxL, maxChars = Finite maxC, mode = m\<rparr>)
            \<longleftrightarrow> maxL < int (length (split_nl (normalizeContent content)))
               \<or> maxC < int (length (join [NL]
                    (fst (truncateLines (split_nl (normalizeContent content)) (Finite maxL) m)))))"
proof (cases "normalizeContent content = []")
  case True
  then show ?thesis using assms by (simp add: buildPreview_def)
next
  case False
  let ?lines = "split_nl (normalizeContent content)"
  let ?ls = "fst (truncateLines ?lines (Finite maxL) m)"
  let ?t = "join [NL] ?ls"
  let ?p = "fst (truncateText ?t (Finite maxC) m)"
  note lb = truncateLines_budget [OF assms(1) split_nl_nonempty split_nl_lines_no_NL, of "normalizeContent content" m]
  note tb = truncateText_budget [OF assms(2), of ?t m]
  have "length (split_nl ?t) = length ?ls"
    using split_nl_join [OF lb(1) lb(3)] by simp
  then have cnt: "Suc (count_NL ?t) = length ?ls"
    by (simp add: length_split_nl)
  have "length (split_nl ?p) \<le> length ?ls"
    using tb(2) cnt by (simp add: length_split_nl)
  then have pl: "int (if ?p = [] then 0 else length (split_nl ?p)) \<le> maxL"
    using lb(2) assms(1) by simp
  have r: "buildPreview content \<lparr>maxLines = Finite maxL, maxChars = Finite maxC, mode = m\<rparr>
           = \<lparr>preview = ?p,
              truncated = (snd (truncateLines ?lines (Finite maxL) m) \<or> snd (truncateText ?t (Finite maxC) m)),
              totalLines = length ?lines,
              totalChars = length (normalizeContent content),
              previewLines = (if ?p = [] then 0 else length (split_nl ?p)),
              previewChars = length ?p\<rparr>"
    using False by (simp add: buildPreview_def Let_def)
  show ?thesis
    unfolding r using pl tb(1) assms
    by (simp add: truncateLines_flag truncateText_flag del: truncateLines.simps truncateText.simps)
qed

section \<open>Properties of the context builder\<close>

lemma trim_empty_iff: "trim s = [] \<longleftrightarrow> (\<forall>c \<in> set s. is_space c)"
proof -
  have "trim s = [] \<longleftrightarrow> (\<forall>c \<in> set (dropWhile is_space s). is_space c)"
    by (simp add: trim_def dropWhile_eq_Nil_conv)
  also have "\<dots> \<longleftrightarrow> dropWhile is_space s = []"
  proof
    assume a: "\<forall>c \<in> set (dropWhile is_space s). is_space c"
    show "dropWhile is_space s = []"
    proof (rule ccontr)
      assume ne: "dropWhile is_space s \<noteq> []"
      then have "\<not> is_space (hd (dropWhile is_space s))" by (rule hd_dropWhile)
      moreover have "hd (dropWhile is_space s) \<in> set (dropWhile is_space s)"
        using ne by simp
      ultimately show False using a by blast
    qed
  qed (auto dest: set_dropWhileD)
  also have "\<dots> \<longleftrightarrow> (\<forall>c \<in> set s. is_space c)"
    by (simp add: dropWhile_eq_Nil_conv)
  finally show ?thesis .
qed

lemma length_trim_le: "length (trim s) \<le> length s"
proof -
  have "length (dropWhile is_space (rev (dropWhile is_space s))) \<le> length (rev (dropWhile is_space s))"
    by (rule length_dropWhile_le)
  also have "\<dots> \<le> length s" by (simp add: length_dropWhile_le)
  finally show ?thesis by (simp add: trim_def)
qed

lemma set_split_nl: "l \<in> set (split_nl s) \<Longrightarrow> set l \<subseteq> set s"
proof (induction s arbitrary: l)
  case Nil
  then show ?case by simp
next
  case (Cons c cs)
  obtain a as where r: "split_nl cs = a # as"
    using split_nl_nonempty [of cs] by (cases "split_nl cs") auto
  have ih: "set a \<subseteq> set cs" "\<And>k. k \<in> set as \<Longrightarrow> set k \<subseteq> set cs"
    using Cons.IH r by simp_all
  show ?case
  proof (cases "c = NL")
    case True
    with Cons.prems r have "l = [] \<or> l = a \<or> l \<in> set as" by simp
    with ih show ?thesis by auto
  next
    case False
    with Cons.prems r have "l = c # a \<or> l \<in> set as" by simp
    with ih show ?thesis by auto
  qed
qed

lemma parsed_items_roundtrip: "list_all roundtrip_item (parseScratchpad content)"
proof -
  have "roundtrip_item item" if "item \<in> set (parse_lines None (split_nl content))" for item
    using parse_lines_text_nonempty [OF that] by (simp add: roundtrip_item_def)
  then show ?thesis
    by (simp add: list_all_iff parseScratchpad_def)
qed

lemma parse_blank: "trim content = [] \<Longrightarrow> parseScratchpad content = []"
proof (rule ccontr)
  assume blank: "trim content = []" and "parseScratchpad content \<noteq> []"
  then obtain item where "item \<in> set (parse_lines None (split_nl content))"
    unfolding parseScratchpad_def by (cases "parse_lines None (split_nl content)") auto
  from parse_lines_text_nonempty [OF this]
  obtain mk where "str ''- ['' @ mk # str ''] '' @ text item \<in> set (split_nl content)" by blast
  from set_split_nl [OF this] have "CU CHR ''-'' \<in> set content" by simp
  moreover have "\<not> is_space (CU CHR ''-'')" by (simp add: is_space_def)
  ultimately show False using blank unfolding trim_empty_iff by blast
qed

lemma serialize_has_content: "trim (serializeScratchpad items) \<noteq> []"
proof -
  have "CU CHR ''#'' \<in> set (serializeScratchpad items)"
    by (cases "concat (map item_lines items)") (simp_all add: serializeScratchpad_def)
  moreover have "\<not> is_space (CU CHR ''#'')" by (simp add: is_space_def)
  ultimately show ?thesis unfolding trim_empty_iff by blast
qed

lemma open_items_reparsed:
  "filter (\<lambda>i. \<not> done i)
     (parseScratchpad (serializeScratchpad (filter (\<lambda>i. \<not> done i) (parseScratchpad content))))
   = filter (\<lambda>i. \<not> done i) (parseScratchpad content)"
proof -
  have "list_all roundtrip_item (filter (\<lambda>i. \<not> done i) (parseScratchpad content))"
    using parsed_items_roundtrip [of content] by (simp add: list_all_iff)
  from roundtrip_general [OF this] show ?thesis by simp
qed

lemma scratchpad_sections_open_only:
  "scratchpad_sections (Some content)
     = scratchpad_sections
         (Some (serializeScratchpad (filter (\<lambda>i. \<not> done i) (parseScratchpad content))))"
proof (cases "trim content = []")
  case True
  have "parseScratchpad (serializeScratchpad []) = []"
    by (rule roundtrip_general) simp
  with True show ?thesis
    by (simp add: scratchpad_sections_def parse_blank serialize_has_content)
next
  case False
  then show ?thesis
    unfolding scratchpad_sections_def
    by (simp only: option.case serialize_has_content open_items_reparsed if_True not_False_eq_True)
qed

lemma scratchpad_sections_all_done:
  "\<forall>item \<in> set (parseScratchpad content). done item \<Longrightarrow> scratchpad_sections (Some content) = []"
  by (simp add: scratchpad_sections_def filter_empty_conv [THEN iffD2])

lemma preview_chars_le:
  assumes "0 < maxC"
  shows "int (length (preview (buildPreview content \<lparr>maxLines = ml, maxChars = Finite maxC, mode = m\<rparr>))) \<le> maxC"
  using assms truncateText_budget(1) [OF assms]
  by (simp add: buildPreview_def Let_def del: truncateText.simps)

lemma finish_context_cap:
  "length (finish_context sections)
     \<le> nat CONTEXT_MAX_CHARS
        + length (overall_note (buildPreview (heading @ join divider sections) overall_options))"
proof -
  have "int (length (preview (buildPreview (heading @ join divider sections) overall_options)))
          \<le> CONTEXT_MAX_CHARS"
    unfolding overall_options_def by (rule preview_chars_le) (simp add: CONTEXT_MAX_CHARS_def)
  then show ?thesis
    by (auto simp: finish_context_def Let_def)
qed

lemma overall_note_length:
  "length (overall_note r)
     = (if truncated r
        then 46 + length (show_nat (previewChars r)) + length (show_nat (totalChars r)) else 0)"
  by (simp add: overall_note_def)

lemmas context_defs =
  buildMemoryContext_def collect_sections_def finish_context_def scratchpad_sections_def
  today_sections_def search_sections_def long_term_sections_def yesterday_sections_def
  source_sections_def formatContextSection_def section_note_def overall_note_def
  readFileSafe_def dailyPath_def SCRATCHPAD_FILE_def MEMORY_FILE_def heading_def divider_def
  buildPreview_def normalizeContent_def trim_def is_space_def
  parseScratchpad_def serializeScratchpad_def item_lines_def toLowerCase_def
  line_terminator_def match_meta_def slice_def slice_from_def rel_index_def Let_def
  CONTEXT_SCRATCHPAD_MAX_CHARS_def CONTEXT_SCRATCHPAD_MAX_LINES_def
  CONTEXT_DAILY_MAX_CHARS_def CONTEXT_DAILY_MAX_LINES_def
  CONTEXT_SEARCH_MAX_CHARS_def CONTEXT_SEARCH_MAX_LINES_def
  CONTEXT_LONG_TERM_MAX_CHARS_def CONTEXT_LONG_TERM_MAX_LINES_def CONTEXT_MAX_CHARS_def

section \<open>The size of the assembled context\<close>

lemma show_nat_digits: "0 < k \<Longrightarrow> n < 10 ^ k \<Longrightarrow> length (show_nat n) \<le> k"
proof (induction k arbitrary: n)
  case 0
  then show ?case by simp
next
  case (Suc k)
  show ?case
  proof (cases "n < 10")
    case True
    then show ?thesis by (simp add: show_nat.simps)
  next
    case False
    with Suc.prems have k: "0 < k" by (cases k) auto
    from Suc.prems have "n div 10 < 10 ^ k"
      by (simp add: less_mult_imp_div_less mult.commute)
    from Suc.IH [OF k this] False show ?thesis
      by (simp add: show_nat.simps [of n])
  qed
qed

lemma total_len_append: "total_len (a @ b) = total_len a + total_len b"
  by (simp add: total_len_def)

lemma length_join_NL: "ls \<noteq> [] \<Longrightarrow> Suc (length (join [NL] ls)) = total_len ls"
proof (induction ls)
  case Nil
  then show ?case by simp
next
  case (Cons l ls)
  then show ?case by (cases ls) (simp_all add: total_len_def)
qed

lemma total_len_split_nl: "total_len (split_nl s) = Suc (length s)"
  using length_join_NL [OF split_nl_nonempty, of s] by (simp add: join_split_nl)

lemma total_len_filter:
  "total_len (concat (map item_lines (filter P items))) \<le> total_len (concat (map item_lines items))"
  by (induction items) (simp_all add: total_len_append)

lemma total_len_parse_lines:
  "total_len (concat (map item_lines (parse_lines prev ls))) \<le> meta_cost prev + total_len ls"
proof (induction ls arbitrary: prev)
  case Nil
  show ?case by (simp add: total_len_def)
next
  case (Cons l ls)
  show ?case
  proof (cases "match_item l")
    case None
    have "meta_cost (Some l) \<le> Suc (length l)" by (simp add: meta_cost_def)
    with Cons [of "Some l"] None show ?thesis
      by (simp add: total_len_def)
  next
    case (Some r)
    obtain mk body where r: "r = (mk, body)" by (cases r)
    note ms = match_item_Some [OF Some [unfolded r]]
    have nm: "meta_cost (Some l) = 0"
      using match_meta_not_item [of l] Some by (auto simp: meta_cost_def)
    define m where "m = (case prev of Some p \<Rightarrow> if match_meta p then p else [] | None \<Rightarrow> [])"
    have mc: "(if m \<noteq> [] then Suc (length m) else 0) \<le> meta_cost prev"
      by (cases prev) (auto simp: m_def meta_cost_def)
    have il: "total_len (item_lines \<lparr>done = (toLowerCase mk = CU CHR ''x''), text = body, meta = m\<rparr>)
                = (if m \<noteq> [] then Suc (length m) else 0) + Suc (length l)"
      by (simp add: item_lines_def total_len_def ms(1))
    have "parse_lines prev (l # ls)
            = \<lparr>done = (toLowerCase mk = CU CHR ''x''), text = body, meta = m\<rparr> # parse_lines (Some l) ls"
      using Some r by (simp add: m_def)
    then have "total_len (concat (map item_lines (parse_lines prev (l # ls))))
            = (if m \<noteq> [] then Suc (length m) else 0) + Suc (length l)
              + total_len (concat (map item_lines (parse_lines (Some l) ls)))"
      using il by (simp add: total_len_append)
    also have "\<dots> \<le> meta_cost prev + Suc (length l) + total_len ls"
      using mc Cons [of "Some l"] nm by simp
    finally show ?thesis by (simp add: total_len_def)
  qed
qed

lemma length_serialize_open:
  "length (serializeScratchpad (filter (\<lambda>i. \<not> done i) (parseScratchpad content)))
     \<le> length content + 15"
proof -
  let ?items = "filter (\<lambda>i. \<not> done i) (parseScratchpad content)"
  let ?ls = "[str ''# Scratchpad'', []] @ concat (map item_lines ?items)"
  have "length (serializeScratchpad ?items) = Suc (length (join [NL] ?ls))"
    by (simp add: serializeScratchpad_def)
  also have "\<dots> = total_len ?ls"
    by (rule length_join_NL) simp
  also have "\<dots> = 14 + total_len (concat (map item_lines ?items))"
    by (simp add: total_len_def)
  also have "\<dots> \<le> 14 + total_len (concat (map item_lines (parseScratchpad content)))"
    using total_len_filter by simp
  also have "\<dots> \<le> 14 + total_len (split_nl content)"
    using total_len_parse_lines [of None "split_nl content"]
    by (simp add: parseScratchpad_def meta_cost_def)
  finally show ?thesis by (simp add: total_len_split_nl)
qed

lemma count_NL_le: "count_NL s \<le> length s"
  by (simp add: count_NL_def)

lemma buildPreview_totals:
  "totalLines (buildPreview content options) \<le> Suc (length content)"
  "totalChars (buildPreview content options) \<le> length content"
  "previewChars (buildPreview content options) = length (preview (buildPreview content options))"
proof -
  have "count_NL (trim content) \<le> length content"
    using count_NL_le [of "trim content"] length_trim_le [of content] by linarith
  then show "totalLines (buildPreview content options) \<le> Suc (length content)"
    by (simp add: buildPreview_def Let_def normalizeContent_def length_split_nl)
  show "totalChars (buildPreview content options) \<le> length content"
    by (simp add: buildPreview_def Let_def normalizeContent_def length_trim_le)
  show "previewChars (buildPreview content options) = length (preview (buildPreview content options))"
    by (simp add: buildPreview_def Let_def)
qed

lemma section_note_length:
  "length (section_note r)
     \<le> 39 + length (show_nat (previewLines r)) + length (show_nat (totalLines r))
          + length (show_nat (previewChars r)) + length (show_nat (totalChars r))"
  by (simp add: section_note_def)

lemma section_body_bound:
  assumes "0 < maxL" and "maxL < 1000" and "0 < maxC" and "maxC < 10000"
    and "length content + 1 < 10 ^ 16"
  shows "length (preview (buildPreview content \<lparr>maxLines = Finite maxL, maxChars = Finite maxC, mode = m\<rparr>)
           @ section_note (buildPreview content \<lparr>maxLines = Finite maxL, maxChars = Finite maxC, mode = m\<rparr>))
         \<le> nat maxC + 78"
proof -
  let ?r = "buildPreview content \<lparr>maxLines = Finite maxL, maxChars = Finite maxC, mode = m\<rparr>"
  from buildPreview_budget [OF assms(1) assms(3), of content m]
  have pc: "int (previewChars ?r) \<le> maxC" and pl: "int (previewLines ?r) \<le> maxL"
    by simp_all
  have "previewLines ?r < 10 ^ 3" using pl assms(2) by simp
  then have d1: "length (show_nat (previewLines ?r)) \<le> 3"
    by (rule show_nat_digits [rotated]) simp
  have "previewChars ?r < 10 ^ 4" using pc assms(4) by simp
  then have d3: "length (show_nat (previewChars ?r)) \<le> 4"
    by (rule show_nat_digits [rotated]) simp
  have "totalLines ?r \<le> Suc (length content)" by (rule buildPreview_totals(1))
  with assms(5) have "totalLines ?r < 10 ^ 16" by linarith
  then have d2: "length (show_nat (totalLines ?r)) \<le> 16"
    by (rule show_nat_digits [rotated]) simp
  have "totalChars ?r \<le> length content" by (rule buildPreview_totals(2))
  with assms(5) have "totalChars ?r < 10 ^ 16" by linarith
  then have d4: "length (show_nat (totalChars ?r)) \<le> 16"
    by (rule show_nat_digits [rotated]) simp
  have "length (preview ?r) \<le> nat maxC"
    using pc buildPreview_totals(3) [of content] by simp
  with section_note_length [of ?r] d1 d2 d3 d4 show ?thesis by simp
qed

lemma source_section_shape:
  assumes "source_sections label src m maxL maxC \<noteq> []" and "within_string_limit src"
    and "0 < maxL" and "maxL < 1000" and "0 < maxC" and "maxC < 10000"
  obtains b where "source_sections label src m maxL maxC = [label @ [NL, NL] @ b]"
    and "length b \<le> nat maxC + 78"
proof -
  from assms(1) obtain content where src: "src = Some content"
    by (cases src) (auto simp: source_sections_def)
  let ?r = "buildPreview content \<lparr>maxLines = Finite maxL, maxChars = Finite maxC, mode = m\<rparr>"
  from assms(1) src have pv: "preview ?r \<noteq> []"
    by (auto simp: source_sections_def formatContextSection_def Let_def split: if_splits)
  from assms(1) src pv
  have eq: "source_sections label src m maxL maxC
              = [label @ [NL, NL] @ (preview ?r @ section_note ?r)]"
    by (auto simp: source_sections_def formatContextSection_def Let_def split: if_splits)
  from assms(2) src have "length content + 1 < 10 ^ 16"
    by (simp add: MAX_STRING_LENGTH_def)
  from section_body_bound [OF assms(3-6) this, of m]
  have "length (preview ?r @ section_note ?r) \<le> nat maxC + 78" .
  with eq that show ?thesis by blast
qed

lemma scratchpad_section_shape:
  assumes "scratchpad_sections src \<noteq> []" and "within_string_limit src"
  obtains b where "scratchpad_sections src = [str ''## SCRATCHPAD.md (working context)'' @ [NL, NL] @ b]"
    and "length b \<le> 2078"
proof -
  from assms(1) obtain content where src: "src = Some content"
    by (cases src) (auto simp: scratchpad_sections_def)
  let ?ser = "serializeScratchpad (filter (\<lambda>i. \<not> done i) (parseScratchpad content))"
  let ?r = "buildPreview ?ser \<lparr>maxLines = Finite CONTEXT_SCRATCHPAD_MAX_LINES,
              maxChars = Finite CONTEXT_SCRATCHPAD_MAX_CHARS, mode = Start\<rparr>"
  from assms(1) src have pv: "preview ?r \<noteq> []"
    by (auto simp: scratchpad_sections_def formatContextSection_def Let_def split: if_splits)
  from assms(1) src pv
  have eq: "scratchpad_sections src
              = [str ''## SCRATCHPAD.md (working context)'' @ [NL, NL] @ (preview ?r @ section_note ?r)]"
    by (auto simp: scratchpad_sections_def formatContextSection_def Let_def split: if_splits)
  from assms(2) src length_serialize_open [of content] have "length ?ser + 1 < 10 ^ 16"
    by (simp add: MAX_STRING_LENGTH_def)
  then have "length (preview ?r @ section_note ?r) \<le> nat CONTEXT_SCRATCHPAD_MAX_CHARS + 78"
    by (intro section_body_bound)
      (simp_all add: CONTEXT_SCRATCHPAD_MAX_LINES_def CONTEXT_SCRATCHPAD_MAX_CHARS_def)
  then have "length (preview ?r @ section_note ?r) \<le> 2078"
    by (simp add: CONTEXT_SCRATCHPAD_MAX_CHARS_def)
  with eq that show ?thesis by blast
qed

lemma finish_context_allowance:
  assumes "length (heading @ join divider sections) \<le> MAX_STRING_LENGTH"
  shows "length (finish_context sections) \<le> 16067"
proof -
  let ?r = "buildPreview (heading @ join divider sections) overall_options"
  have "int (previewChars ?r) \<le> CONTEXT_MAX_CHARS"
    unfolding buildPreview_totals(3) overall_options_def
    by (rule preview_chars_le) (simp add: CONTEXT_MAX_CHARS_def)
  then have "previewChars ?r < 10 ^ 5" by (simp add: CONTEXT_MAX_CHARS_def)
  then have d1: "length (show_nat (previewChars ?r)) \<le> 5"
    by (rule show_nat_digits [rotated]) simp
  have "totalChars ?r \<le> length (heading @ join divider sections)"
    by (rule buildPreview_totals(2))
  with assms have "totalChars ?r < 10 ^ 16" by (simp add: MAX_STRING_LENGTH_def)
  then have d2: "length (show_nat (totalChars ?r)) \<le> 16"
    by (rule show_nat_digits [rotated]) simp
  from d1 d2 have "length (overall_note ?r) \<le> 67"
    by (simp add: overall_note_length)
  with finish_context_cap [of sections] show ?thesis
    by (simp add: CONTEXT_MAX_CHARS_def)
qed

lemma five_sections_fit:
  assumes "scratchpad_sections (readFileSafe env SCRATCHPAD_FILE) \<noteq> []"
    and "today_sections env \<noteq> []"
    and "search_sections searchResults \<noteq> []"
    and "long_term_sections env \<noteq> []"
    and "yesterday_sections env \<noteq> []"
    and "within_string_limit (readFileSafe env SCRATCHPAD_FILE)"
    and "within_string_limit (readFileSafe env (dailyPath (today env)))"
    and "within_string_limit searchResults"
    and "within_string_limit (readFileSafe env MEMORY_FILE)"
    and "within_string_limit (readFileSafe env (dailyPath (yesterday env)))"
    and "length (today env) = 10" and "length (yesterday env) = 10"
  shows "\<exists>b1 b2 b3 b4 b5.
     buildMemoryContext env searchResults
       = str ''# Memory'' @ [NL, NL]
         @ str ''## SCRATCHPAD.md (working context)'' @ [NL, NL] @ b1 @ divider
         @ str ''## Daily log: '' @ today env @ str '' (today)'' @ [NL, NL] @ b2 @ divider
         @ str ''## Relevant memories (auto-retrieved)'' @ [NL, NL] @ b3 @ divider
         @ str ''## MEMORY.md (long-term)'' @ [NL, NL] @ b4 @ divider
         @ str ''## Daily log: '' @ yesterday env @ str '' (yesterday)'' @ [NL, NL] @ b5"
proof -
  from scratchpad_section_shape [OF assms(1) assms(6)]
  obtain b1 where s1: "scratchpad_sections (readFileSafe env SCRATCHPAD_FILE)
      = [str ''## SCRATCHPAD.md (working context)'' @ [NL, NL] @ b1]" and l1: "length b1 \<le> 2078"
    by blast
  have "source_sections (str ''## Daily log: '' @ today env @ str '' (today)'')
          (readFileSafe env (dailyPath (today env))) End
          CONTEXT_DAILY_MAX_LINES CONTEXT_DAILY_MAX_CHARS \<noteq> []"
    using assms(2) by (simp add: today_sections_def)
  from source_section_shape [OF this assms(7)]
  obtain b2 where s2: "today_sections env
      = [(str ''## Daily log: '' @ today env @ str '' (today)'') @ [NL, NL] @ b2]" and l2: "length b2 \<le> 3078"
    by (auto simp: today_sections_def CONTEXT_DAILY_MAX_LINES_def CONTEXT_DAILY_MAX_CHARS_def)
  have "source_sections (str ''## Relevant memories (auto-retrieved)'') searchResults Start
          CONTEXT_SEARCH_MAX_LINES CONTEXT_SEARCH_MAX_CHARS \<noteq> []"
    using assms(3) by (simp add: search_sections_def)
  from source_section_shape [OF this assms(8)]
  obtain b3 where s3: "search_sections searchResults
      = [str ''## Relevant memories (auto-retrieved)'' @ [NL, NL] @ b3]" and l3: "length b3 \<le> 2578"
    by (auto simp: search_sections_def CONTEXT_SEARCH_MAX_LINES_def CONTEXT_SEARCH_MAX_CHARS_def)
  have "source_sections (str ''## MEMORY.md (long-term)'') (readFileSafe env MEMORY_FILE) Middle
          CONTEXT_LONG_TERM_MAX_LINES CONTEXT_LONG_TERM_MAX_CHARS \<noteq> []"
    using assms(4) by (simp add: long_term_sections_def)
  from source_section_shape [OF this assms(9)]
  obtain b4 where s4: "long_term_sections env
      = [str ''## MEMORY.md (long-term)'' @ [NL, NL] @ b4]" and l4: "length b4 \<le> 4078"
    by (auto simp: long_term_sections_def CONTEXT_LONG_TERM_MAX_LINES_def
        CONTEXT_LONG_TERM_MAX_CHARS_def)
  have "source_sections (str ''## Daily log: '' @ yesterday env @ str '' (yesterday)'')
          (readFileSafe env (dailyPath (yesterday env))) End
          CONTEXT_DAILY_MAX_LINES CONTEXT_DAILY_MAX_CHARS \<noteq> []"
    using assms(5) by (simp add: yesterday_sections_def)
  from source_section_shape [OF this assms(10)]
  obtain b5 where s5: "yesterday_sections env
      = [(str ''## Daily log: '' @ yesterday env @ str '' (yesterday)'') @ [NL, NL] @ b5]"
    and l5: "length b5 \<le> 3078"
    by (auto simp: yesterday_sections_def CONTEXT_DAILY_MAX_LINES_def CONTEXT_DAILY_MAX_CHARS_def)
  let ?whole = "str ''# Memory'' @ [NL, NL]
         @ str ''## SCRATCHPAD.md (working context)'' @ [NL, NL] @ b1 @ divider
         @ str ''## Daily log: '' @ today env @ str '' (today)'' @ [NL, NL] @ b2 @ divider
         @ str ''## Relevant memories (auto-retrieved)'' @ [NL, NL] @ b3 @ divider
         @ str ''## MEMORY.md (long-term)'' @ [NL, NL] @ b4 @ divider
         @ str ''## Daily log: '' @ yesterday env @ str '' (yesterday)'' @ [NL, NL] @ b5"
  have secs: "collect_sections env searchResults
      = [str ''## SCRATCHPAD.md (working context)'' @ [NL, NL] @ b1,
         (str ''## Daily log: '' @ today env @ str '' (today)'') @ [NL, NL] @ b2,
         str ''## Relevant memories (auto-retrieved)'' @ [NL, NL] @ b3,
         str ''## MEMORY.md (long-term)'' @ [NL, NL] @ b4,
         (str ''## Daily log: '' @ yesterday env @ str '' (yesterday)'') @ [NL, NL] @ b5]"
    by (simp only: collect_sections_def s1 s2 s3 s4 s5 append.simps)
  have ctx: "heading @ join divider (collect_sections env searchResults) = ?whole"
    unfolding secs by (simp add: heading_def)
  have "length ?whole \<le> 16000"
    using l1 l2 l3 l4 l5 assms(11,12) by (simp add: divider_def)
  then have "finish_context (collect_sections env searchResults) = ?whole"
    unfolding finish_context_def ctx Let_def
    by (simp add: secs CONTEXT_MAX_CHARS_def)
  then show ?thesis
    unfolding buildMemoryContext_def by blast
qed

section \<open>Properties of the JSON parser\<close>

lemma skip_ws_Cons: "skip_ws s = c # cs \<Longrightarrow> length cs < length s"
proof -
  assume "skip_ws s = c # cs"
  then have "Suc (length cs) = length (dropWhile json_ws s)" by (simp add: skip_ws_def)
  also have "\<dots> \<le> length s" by (rule length_dropWhile_le)
  finally show ?thesis by simp
qed

lemma skip_ws_tl: "skip_ws s \<noteq> [] \<Longrightarrow> length (tl (skip_ws s)) < length s"
  using skip_ws_Cons [of s "hd (skip_ws s)" "tl (skip_ws s)"] by simp

lemma cons_result_Some:
  "cons_result c r = Some (t, rest) \<Longrightarrow> \<exists>t'. r = Some (t', rest)"
  by (auto simp: cons_result_def split: option.splits)

lemma lex_string_shorter: "lex_string s = Some (t, rest) \<Longrightarrow> length rest < length s"
proof (induction "length s" arbitrary: s t rule: less_induct)
  case less
  show ?case
  proof (cases s)
    case Nil
    with less.prems show ?thesis by simp
  next
    case (Cons c cs)
    have ih: "lex_string x = Some (u, rest) \<Longrightarrow> length x \<le> length cs \<Longrightarrow> length rest < length s" for x u
      using less.hyps [of x u] Cons by fastforce
    note p = less.prems [unfolded Cons]
    show ?thesis
    proof (cases "c = 0x22")
      case True
      with p Cons show ?thesis by simp
    next
      case nq: False
      show ?thesis
      proof (cases "c = 0x5C")
        case False
        with nq p obtain t' where "lex_string cs = Some (t', rest)"
          by (auto split: if_splits dest: cons_result_Some)
        then show ?thesis by (rule ih) simp
      next
        case bs: True
        with nq p obtain e r where cs: "cs = e # r" by (cases cs) auto
        show ?thesis
        proof (cases "e = CU CHR ''u''")
          case True
          with nq bs cs p obtain h1 h2 h3 h4 r' t' where
            r: "r = h1 # h2 # h3 # h4 # r'" and l: "lex_string r' = Some (t', rest)"
            by (auto split: list.splits option.splits if_splits dest: cons_result_Some)
          from l show ?thesis by (rule ih) (simp add: cs r)
        next
          case False
          with nq bs cs p obtain d t' where
            u: "unescape e = Some d" and l: "lex_string r = Some (t', rest)"
            by (auto split: option.splits dest: cons_result_Some)
          from l show ?thesis by (rule ih) (simp add: cs)
        qed
      qed
    qed
  qed
qed

lemma lex_digits_shorter: "lex_digits s = Some (ds, rest) \<Longrightarrow> length rest < length s"
proof -
  assume a: "lex_digits s = Some (ds, rest)"
  then have "takeWhile is_digit s \<noteq> []" and r: "rest = dropWhile is_digit s"
    by (auto simp: lex_digits_def split: if_splits)
  then have "0 < length (takeWhile is_digit s)" by simp
  moreover have "length (takeWhile is_digit s) + length (dropWhile is_digit s) = length s"
    by (metis length_append takeWhile_dropWhile_id)
  ultimately have "length (dropWhile is_digit s) < length s" by linarith
  then show ?thesis using r by simp
qed

lemma lex_int_shorter: "lex_int s = Some (i, rest) \<Longrightarrow> length rest < length s"
  by (cases s) (auto simp: lex_int_def split: if_splits dest: lex_digits_shorter)

lemma lex_frac_shorter: "lex_frac s = Some (f, rest) \<Longrightarrow> length rest \<le> length s"
  by (cases s) (auto simp: lex_frac_def split: if_splits option.splits dest: lex_digits_shorter)

lemma lex_exp_shorter: "lex_exp s = Some (e, rest) \<Longrightarrow> length rest \<le> length s"
proof (cases s)
  case Nil
  assume "lex_exp s = Some (e, rest)"
  with Nil show ?thesis by (simp add: lex_exp_def)
next
  case (Cons c cs)
  assume a: "lex_exp s = Some (e, rest)"
  show ?thesis
  proof (cases "c = CU CHR ''e'' \<or> c = CU CHR ''E''")
    case False
    with a Cons show ?thesis by (auto simp: lex_exp_def)
  next
    case True
    with a Cons obtain g gs where cs: "cs = g # gs" by (cases cs) (auto simp: lex_exp_def)
    from a Cons True cs have "(\<exists>ds. lex_digits gs = Some (ds, rest)) \<or> (\<exists>ds. lex_digits cs = Some (ds, rest))"
      by (auto simp: lex_exp_def split: if_splits option.splits)
    then show ?thesis using Cons cs by (auto dest: lex_digits_shorter)
  qed
qed

lemma lex_number_shorter: "lex_number s = Some (l, rest) \<Longrightarrow> length rest < length s"
proof -
  assume a: "lex_number s = Some (l, rest)"
  define s0 where "s0 = drop (length (if s \<noteq> [] \<and> hd s = CU CHR ''-'' then str ''-'' else [])) s"
  have len: "length s0 \<le> length s" by (simp add: s0_def)
  from a obtain i s1 f s2 e where "lex_int s0 = Some (i, s1)"
    "lex_frac s1 = Some (f, s2)" "lex_exp s2 = Some (e, rest)"
    unfolding lex_number_def Let_def s0_def [symmetric]
    by (auto split: option.splits)
  then show ?thesis
    using len lex_int_shorter [of s0 i s1] lex_frac_shorter [of s1 f s2] lex_exp_shorter [of s2 e rest]
    by linarith
qed

lemma expect_literal_shorter:
  "expect_literal lit w s = Inr (v, rest) \<Longrightarrow> lit \<noteq> [] \<Longrightarrow> length rest < length s"
proof -
  assume a: "expect_literal lit w s = Inr (v, rest)" and ne: "lit \<noteq> []"
  then have t: "take (length lit) s = lit" and r: "rest = drop (length lit) s"
    by (auto simp: expect_literal_def split: if_splits)
  from t have "length lit \<le> length s"
    by (metis length_take min.cobounded1)
  with ne r show ?thesis by (cases lit) auto
qed

lemma expect_literal_fuel: "expect_literal lit w s \<noteq> Inl OutOfFuel"
  by (simp add: expect_literal_def)

lemma parse_value_Inr:
  assumes "parse_value (Suc n) s = Inr (v, rest)"
  obtains c cs where "skip_ws s = c # cs"
    and "(skip_ws cs \<noteq> [] \<and> rest = tl (skip_ws cs))
       \<or> (\<exists>vs. parse_elements n cs = Inr (vs, rest))
       \<or> (\<exists>kvs. parse_members n cs = Inr (kvs, rest))
       \<or> (\<exists>t. lex_string cs = Some (t, rest))
       \<or> (\<exists>lit w. lit \<noteq> [] \<and> expect_literal lit w (c # cs) = Inr (v, rest))
       \<or> (\<exists>l. lex_number (c # cs) = Some (l, rest))"
proof (cases "skip_ws s")
  case Nil
  with assms show ?thesis by simp
next
  case (Cons c cs)
  from assms Cons have
     "(skip_ws cs \<noteq> [] \<and> rest = tl (skip_ws cs))
       \<or> (\<exists>vs. parse_elements n cs = Inr (vs, rest))
       \<or> (\<exists>kvs. parse_members n cs = Inr (kvs, rest))
       \<or> (\<exists>t. lex_string cs = Some (t, rest))
       \<or> (\<exists>lit w. lit \<noteq> [] \<and> expect_literal lit w (c # cs) = Inr (v, rest))
       \<or> (\<exists>l. lex_number (c # cs) = Some (l, rest))"
    by (simp split: if_splits sum.splits option.splits prod.splits) force+
  with Cons that show ?thesis by blast
qed

lemma parse_elements_Inr:
  assumes "parse_elements (Suc n) s = Inr (vs, rest)"
  obtains v r1 c cs where "parse_value n s = Inr (v, r1)" and "skip_ws r1 = c # cs"
    and "rest = cs \<or> (\<exists>vs'. parse_elements n cs = Inr (vs', rest))"
proof -
  from assms obtain v r1 where v: "parse_value n s = Inr (v, r1)"
    by (auto split: sum.splits)
  with assms obtain c cs where c: "skip_ws r1 = c # cs"
    by (cases "skip_ws r1") auto
  from assms v c have "rest = cs \<or> (\<exists>vs'. parse_elements n cs = Inr (vs', rest))"
    by (auto split: if_splits sum.splits)
  with v c that show ?thesis by blast
qed

lemma parse_members_Inr:
  assumes "parse_members (Suc n) s = Inr (kvs, rest)"
  obtains q qs k r1 colon after v r2 c cs where "skip_ws s = q # qs"
    and "lex_string qs = Some (k, r1)" and "skip_ws r1 = colon # after"
    and "parse_value n after = Inr (v, r2)" and "skip_ws r2 = c # cs"
    and "rest = cs \<or> (\<exists>kvs'. parse_members n cs = Inr (kvs', rest))"
proof -
  from assms obtain q qs where q: "skip_ws s = q # qs"
    by (cases "skip_ws s") auto
  with assms have qq: "q = 0x22" by (auto split: if_splits)
  from assms q qq obtain k r1 where k: "lex_string qs = Some (k, r1)"
    by (cases "lex_string qs") auto
  from assms q qq k obtain colon after where a: "skip_ws r1 = colon # after"
    by (cases "skip_ws r1") auto
  with assms q qq k have cc: "colon = CU CHR '':''" by (auto split: if_splits)
  from assms q qq k a cc obtain v r2 where v: "parse_value n after = Inr (v, r2)"
    by (auto split: sum.splits)
  from assms q qq k a cc v obtain c cs where c: "skip_ws r2 = c # cs"
    by (cases "skip_ws r2") auto
  from assms q qq k a cc v c
  have "rest = cs \<or> (\<exists>kvs'. parse_members n cs = Inr (kvs', rest))"
    by (auto split: if_splits sum.splits)
  with q k a v c that show ?thesis by blast
qed

lemma parse_progress:
  "(parse_value n s = Inr (v, rest) \<longrightarrow> length rest < length s)
   \<and> (parse_elements n s = Inr (vs, rest) \<longrightarrow> length rest < length s)
   \<and> (parse_members n s = Inr (kvs, rest) \<longrightarrow> length rest < length s)"
proof (induction n arbitrary: s v vs kvs rest)
  case 0
  show ?case by simp
next
  case (Suc n)
  have ihv: "parse_value n s = Inr (v, rest) \<Longrightarrow> length rest < length s" for s v rest
    using Suc by blast
  have ihe: "parse_elements n s = Inr (vs, rest) \<Longrightarrow> length rest < length s" for s vs rest
    using Suc by blast
  have ihm: "parse_members n s = Inr (kvs, rest) \<Longrightarrow> length rest < length s" for s kvs rest
    using Suc by blast
  have val: "length rest < length s" if "parse_value (Suc n) s = Inr (v, rest)" for s v rest
    using that
  proof (rule parse_value_Inr)
    fix c cs
    assume c: "skip_ws s = c # cs"
      and alt: "(skip_ws cs \<noteq> [] \<and> rest = tl (skip_ws cs))
       \<or> (\<exists>vs. parse_elements n cs = Inr (vs, rest))
       \<or> (\<exists>kvs. parse_members n cs = Inr (kvs, rest))
       \<or> (\<exists>t. lex_string cs = Some (t, rest))
       \<or> (\<exists>lit w. lit \<noteq> [] \<and> expect_literal lit w (c # cs) = Inr (v, rest))
       \<or> (\<exists>l. lex_number (c # cs) = Some (l, rest))"
    have cs: "length cs < length s" using c by (rule skip_ws_Cons)
    have ccs: "length (c # cs) \<le> length s" using cs by simp
    from alt consider "skip_ws cs \<noteq> []" "rest = tl (skip_ws cs)"
      | vs where "parse_elements n cs = Inr (vs, rest)"
      | kvs where "parse_members n cs = Inr (kvs, rest)"
      | t where "lex_string cs = Some (t, rest)"
      | lit w where "lit \<noteq> []" "expect_literal lit w (c # cs) = Inr (v, rest)"
      | l where "lex_number (c # cs) = Some (l, rest)"
      by blast
    then show "length rest < length s"
    proof cases
      case 1
      then show ?thesis using skip_ws_tl [of cs] cs by simp
    next
      case 2
      from ihe [OF this] cs show ?thesis by simp
    next
      case 3
      from ihm [OF this] cs show ?thesis by simp
    next
      case 4
      then show ?thesis using lex_string_shorter [of cs t rest] cs by simp
    next
      case 5
      then show ?thesis using expect_literal_shorter [of lit w "c # cs" v rest] ccs by simp
    next
      case 6
      then show ?thesis using lex_number_shorter [of "c # cs" l rest] ccs by simp
    qed
  qed
  have elems: "length rest < length s" if "parse_elements (Suc n) s = Inr (vs, rest)" for s vs rest
    using that
  proof (rule parse_elements_Inr)
    fix v r1 c cs
    assume v: "parse_value n s = Inr (v, r1)" and c: "skip_ws r1 = c # cs"
      and alt: "rest = cs \<or> (\<exists>vs'. parse_elements n cs = Inr (vs', rest))"
    have 1: "length r1 < length s" using v by (rule ihv)
    have 2: "length cs < length r1" using c by (rule skip_ws_Cons)
    from alt show "length rest < length s"
    proof
      assume "rest = cs"
      with 1 2 show ?thesis by simp
    next
      assume "\<exists>vs'. parse_elements n cs = Inr (vs', rest)"
      then obtain vs' where "parse_elements n cs = Inr (vs', rest)" ..
      from ihe [OF this] 1 2 show ?thesis by simp
    qed
  qed
  have membs: "length rest < length s" if "parse_members (Suc n) s = Inr (kvs, rest)" for s kvs rest
    using that
  proof (rule parse_members_Inr)
    fix q qs k r1 colon after v r2 c cs
    assume q: "skip_ws s = q # qs" and k: "lex_string qs = Some (k, r1)"
      and a: "skip_ws r1 = colon # after" and v: "parse_value n after = Inr (v, r2)"
      and c: "skip_ws r2 = c # cs"
      and alt: "rest = cs \<or> (\<exists>kvs'. parse_members n cs = Inr (kvs', rest))"
    have 1: "length qs < length s" using q by (rule skip_ws_Cons)
    have 2: "length r1 < length qs" using k by (rule lex_string_shorter)
    have 3: "length after < length r1" using a by (rule skip_ws_Cons)
    have 4: "length r2 < length after" using v by (rule ihv)
    have 5: "length cs < length r2" using c by (rule skip_ws_Cons)
    from alt show "length rest < length s"
    proof
      assume "rest = cs"
      with 1 2 3 4 5 show ?thesis by simp
    next
      assume "\<exists>kvs'. parse_members n cs = Inr (kvs', rest)"
      then obtain kvs' where "parse_members n cs = Inr (kvs', rest)" ..
      from ihm [OF this] 1 2 3 4 5 show ?thesis by simp
    qed
  qed
  from val elems membs show ?case by blast
qed

lemma parse_value_OutOfFuel:
  assumes "parse_value (Suc n) s = Inl OutOfFuel"
  obtains c cs where "skip_ws s = c # cs"
    and "parse_elements n cs = Inl OutOfFuel \<or> parse_members n cs = Inl OutOfFuel"
proof (cases "skip_ws s")
  case Nil
  with assms show ?thesis by simp
next
  case (Cons c cs)
  from assms Cons
  have "parse_elements n cs = Inl OutOfFuel \<or> parse_members n cs = Inl OutOfFuel"
    by (simp add: expect_literal_def split: if_splits sum.splits option.splits prod.splits)
  with Cons that show ?thesis by blast
qed

lemma parse_elements_OutOfFuel:
  assumes "parse_elements (Suc n) s = Inl OutOfFuel"
  shows "parse_value n s = Inl OutOfFuel
       \<or> (\<exists>v r1 c cs. parse_value n s = Inr (v, r1) \<and> skip_ws r1 = c # cs
             \<and> parse_elements n cs = Inl OutOfFuel)"
proof (cases "parse_value n s")
  case (Inl e)
  with assms show ?thesis by simp
next
  case (Inr p)
  obtain v r1 where p: "p = (v, r1)" by (cases p)
  with assms Inr obtain c cs where c: "skip_ws r1 = c # cs"
    by (cases "skip_ws r1") auto
  from assms Inr p c have "parse_elements n cs = Inl OutOfFuel"
    by (auto split: if_splits sum.splits)
  with Inr p c show ?thesis by blast
qed

lemma parse_members_OutOfFuel:
  assumes "parse_members (Suc n) s = Inl OutOfFuel"
  shows "\<exists>q qs k r1 colon after. skip_ws s = q # qs \<and> lex_string qs = Some (k, r1)
           \<and> skip_ws r1 = colon # after
           \<and> (parse_value n after = Inl OutOfFuel
              \<or> (\<exists>v r2 c cs. parse_value n after = Inr (v, r2) \<and> skip_ws r2 = c # cs
                    \<and> parse_members n cs = Inl OutOfFuel))"
proof -
  from assms obtain q qs where q: "skip_ws s = q # qs"
    by (cases "skip_ws s") auto
  with assms have qq: "q = 0x22" by (auto split: if_splits)
  from assms q qq obtain k r1 where k: "lex_string qs = Some (k, r1)"
    by (cases "lex_string qs") auto
  from assms q qq k obtain colon after where a: "skip_ws r1 = colon # after"
    by (cases "skip_ws r1") auto
  with assms q qq k have cc: "colon = CU CHR '':''" by (auto split: if_splits)
  show ?thesis
  proof (cases "parse_value n after")
    case (Inl e)
    with assms q qq k a cc have "e = OutOfFuel" by simp
    with Inl q k a show ?thesis by blast
  next
    case (Inr p)
    obtain v r2 where p: "p = (v, r2)" by (cases p)
    with assms q qq k a cc Inr obtain c cs where c: "skip_ws r2 = c # cs"
      by (cases "skip_ws r2") auto
    from assms q qq k a cc Inr p c have "parse_members n cs = Inl OutOfFuel"
      by (auto split: if_splits sum.splits)
    with Inr p c q k a show ?thesis by blast
  qed
qed

lemma parse_fuel:
  "(2 * length s < n \<longrightarrow> parse_value n s \<noteq> Inl OutOfFuel)
   \<and> (2 * length s + 1 < n \<longrightarrow> parse_elements n s \<noteq> Inl OutOfFuel)
   \<and> (2 * length s + 1 < n \<longrightarrow> parse_members n s \<noteq> Inl OutOfFuel)"
proof (induction n arbitrary: s)
  case 0
  show ?case by simp
next
  case (Suc n)
  have ihv: "2 * length s < n \<Longrightarrow> parse_value n s \<noteq> Inl OutOfFuel" for s
    using Suc by blast
  have ihe: "2 * length s + 1 < n \<Longrightarrow> parse_elements n s \<noteq> Inl OutOfFuel" for s
    using Suc by blast
  have ihm: "2 * length s + 1 < n \<Longrightarrow> parse_members n s \<noteq> Inl OutOfFuel" for s
    using Suc by blast
  have val: "parse_value (Suc n) s \<noteq> Inl OutOfFuel" if b: "2 * length s < Suc n"
  proof
    assume "parse_value (Suc n) s = Inl OutOfFuel"
    then show False
    proof (rule parse_value_OutOfFuel)
      fix c cs
      assume c: "skip_ws s = c # cs"
        and alt: "parse_elements n cs = Inl OutOfFuel \<or> parse_members n cs = Inl OutOfFuel"
      from skip_ws_Cons [OF c] b have "2 * length cs + 1 < n" by linarith
      with ihe [of cs] ihm [of cs] alt show False by blast
    qed
  qed
  have elems: "parse_elements (Suc n) s \<noteq> Inl OutOfFuel" if b: "2 * length s + 1 < Suc n"
  proof
    assume "parse_elements (Suc n) s = Inl OutOfFuel"
    from parse_elements_OutOfFuel [OF this]
    show False
    proof
      assume "parse_value n s = Inl OutOfFuel"
      with ihv [of s] b show False by simp
    next
      assume "\<exists>v r1 c cs. parse_value n s = Inr (v, r1) \<and> skip_ws r1 = c # cs
             \<and> parse_elements n cs = Inl OutOfFuel"
      then obtain v r1 c cs where v: "parse_value n s = Inr (v, r1)"
        and c: "skip_ws r1 = c # cs" and f: "parse_elements n cs = Inl OutOfFuel"
        by blast
      from parse_progress [of n s v r1] v have "length r1 < length s" by blast
      with skip_ws_Cons [OF c] b have "2 * length cs + 1 < n" by linarith
      with ihe [of cs] f show False by blast
    qed
  qed
  have membs: "parse_members (Suc n) s \<noteq> Inl OutOfFuel" if b: "2 * length s + 1 < Suc n"
  proof
    assume "parse_members (Suc n) s = Inl OutOfFuel"
    from parse_members_OutOfFuel [OF this]
    obtain q qs k r1 colon after where q: "skip_ws s = q # qs"
      and k: "lex_string qs = Some (k, r1)" and a: "skip_ws r1 = colon # after"
      and alt: "parse_value n after = Inl OutOfFuel
              \<or> (\<exists>v r2 c cs. parse_value n after = Inr (v, r2) \<and> skip_ws r2 = c # cs
                    \<and> parse_members n cs = Inl OutOfFuel)"
      by blast
    have la: "length after < length s"
      using skip_ws_Cons [OF q] lex_string_shorter [OF k] skip_ws_Cons [OF a] by linarith
    from alt show False
    proof
      assume "parse_value n after = Inl OutOfFuel"
      moreover have "2 * length after < n" using la b by linarith
      ultimately show False using ihv [of after] by blast
    next
      assume "\<exists>v r2 c cs. parse_value n after = Inr (v, r2) \<and> skip_ws r2 = c # cs
                    \<and> parse_members n cs = Inl OutOfFuel"
      then obtain v r2 c cs where v: "parse_value n after = Inr (v, r2)"
        and c: "skip_ws r2 = c # cs" and f: "parse_members n cs = Inl OutOfFuel"
        by blast
      from parse_progress [of n after v r2] v have "length r2 < length after" by blast
      with skip_ws_Cons [OF c] la b have "2 * length cs + 1 < n" by linarith
      with ihm [of cs] f show False by blast
    qed
  qed
  from val elems membs show ?case by blast
qed

lemma JSON_parse_total: "JSON_parse s \<noteq> Inl OutOfFuel"
proof -
  have "parse_value (Suc (2 * length s)) s \<noteq> Inl OutOfFuel"
    using parse_fuel [of s "Suc (2 * length s)"] by simp
  then show ?thesis
    by (auto simp: JSON_parse_def split: sum.splits)
qed

lemma JSON_parse_sentinel: "JSON_parse (str ''No results found.'') = Inl SyntaxError"
  by code_simp

lemma payload_parses:
  "JSON_parse payload
     = Inr (JArray [JObject [(str ''path'', JString (str ''MEMORY.md'')), (str ''content'', JString (str ''Hello''))],
                   JObject [(str ''path'', JString (str ''daily/2026-02-16.md'')), (str ''content'', JString (str ''World''))]])"
  unfolding payload_def by code_simp

lemma unicode_escape_decoded:
  "JSON_parse ([0x22, 0x5C] @ str ''u2713'' @ [0x22]) = Inr (JString [0x2713])"
  by code_simp

lemma noisy_fails: "JSON_parse (noise @ payload) = Inl SyntaxError"
  by code_simp

section \<open>The pass-through of non-positive limits\<close>

text \<open>
  C8. A limit that is zero or negative means no limit: with \<open>maxLines \<le> 0\<close> and
  \<open>maxChars \<le> 0\<close> the line primitive and the character primitive both return their
  input unchanged with the flag \<open>truncated = false\<close>, in every mode. Through
  \<^verbatim>\<open>buildPreview\<close> the preview is then the whole (trimmed) content and the result is
  not flagged as truncated.
\<close>

theorem no_limit_passthrough:
  assumes "maxL \<le> 0" and "maxC \<le> 0"
  shows "truncateLines lines (Finite maxL) m = (lines, False)
       \<and> truncateText s (Finite maxC) m = (s, False)
       \<and> preview (buildPreview content \<lparr>maxLines = Finite maxL, maxChars = Finite maxC, mode = m\<rparr>)
           = normalizeContent content
       \<and> \<not> truncated (buildPreview content \<lparr>maxLines = Finite maxL, maxChars = Finite maxC, mode = m\<rparr>)"
  using assms by (simp add: buildPreview_def Let_def join_split_nl)

theorem no_limit_passthrough_witness:
  "truncateLines [str ''a'', str ''b'', str ''c''] (Finite 0) Middle = ([str ''a'', str ''b'', str ''c''], False)
   \<and> truncateText (str ''hello world'') (Finite (- 3)) End = (str ''hello world'', False)
   \<and> preview (buildPreview (str ''x'') \<lparr>maxLines = Finite 0, maxChars = Finite (- 3), mode = Start\<rparr>)
       = normalizeContent (str ''x'')
   \<and> \<not> truncated (buildPreview (str ''x'') \<lparr>maxLines = Finite 0, maxChars = Finite (- 3), mode = Start\<rparr>)"
proof -
  have a: "(0::int) \<le> 0" and b: "(- 3::int) \<le> 0" by simp_all
  show ?thesis
    using no_limit_passthrough [OF a b, of "[str ''a'', str ''b'', str ''c'']" Middle "str ''hello world''" "str ''x''"]
      no_limit_passthrough [OF a b, of "[]" End "str ''hello world''" "str ''x''"]
      no_limit_passthrough [OF a b, of "[]" Start "[]" "str ''x''"]
    by simp
qed

section \<open>Keep-middle truncation\<close>

text \<open>
  C9, as the claim states it, fails at the line level for a limit of one line: there
  \<open>keep = 0\<close>, and the claim gives the marker alone, while the code keeps the first line
  and inserts no marker.
\<close>

theorem keep_middle_one_line_counterexample:
  "truncateLines [str ''a'', str ''b''] (Finite 1) Middle = ([str ''a''], True)
   \<and> fst (truncateLines [str ''a'', str ''b''] (Finite 1) Middle)
       \<noteq> take (nat \<lceil>real_of_int (1 - 1) / 2\<rceil>) [str ''a'', str ''b''] @ [marker]
          @ drop (length [str ''a'', str ''b''] - nat \<lfloor>real_of_int (1 - 1) / 2\<rfloor>) [str ''a'', str ''b'']"
  by (simp add: slice_def rel_index_def marker_def)

text \<open>
  C9 (amended). Under keep-middle truncation, whenever truncation occurs: at line
  granularity with a limit above one, the output is the first \<open>ceil(keep/2)\<close> lines, the
  marker line and the last \<open>floor(keep/2)\<close> lines, where \<open>keep = maxLines - 1\<close>; with a
  limit of exactly one line it is the first line alone. At character granularity, with
  \<open>keep = maxChars - marker.length\<close>, the output is the first \<open>ceil(keep/2)\<close> characters,
  the marker and the last \<open>floor(keep/2)\<close> characters when \<open>keep > 0\<close> and
  \<open>maxChars > 10\<close>, and otherwise the first \<open>maxChars\<close> characters.
\<close>

theorem keep_middle_shape:
  "(1 < maxL \<and> maxL < int (length lines) \<longrightarrow>
      truncateLines lines (Finite maxL) Middle =
        (take (nat \<lceil>real_of_int (maxL - 1) / 2\<rceil>) lines @ [marker]
           @ drop (length lines - nat \<lfloor>real_of_int (maxL - 1) / 2\<rfloor>) lines, True))
   \<and> (maxL = 1 \<and> 1 < length lines \<longrightarrow>
      truncateLines lines (Finite maxL) Middle = (take 1 lines, True))
   \<and> (0 < maxC - int (length marker) \<and> 10 < maxC \<and> maxC < int (length s) \<longrightarrow>
      truncateText s (Finite maxC) Middle =
        (take (nat \<lceil>real_of_int (maxC - int (length marker)) / 2\<rceil>) s @ marker
           @ drop (length s - nat \<lfloor>real_of_int (maxC - int (length marker)) / 2\<rfloor>) s, True))
   \<and> ((maxC - int (length marker) \<le> 0 \<or> maxC \<le> 10) \<and> 0 < maxC \<and> maxC < int (length s) \<longrightarrow>
      truncateText s (Finite maxC) Middle = (take (nat maxC) s, True))"
proof (intro conjI impI)
  assume h: "1 < maxL \<and> maxL < int (length lines)"
  let ?keep = "maxL - 1"
  have c: "0 \<le> ceil_half ?keep" using h by (simp add: ceil_half_def) linarith
  have f: "0 \<le> floor_half ?keep" using h by (simp add: floor_half_def)
  have tl: "(if 0 < floor_half ?keep then slice_from (- floor_half ?keep) lines else [])
              = drop (length lines - nat (floor_half ?keep)) lines"
    using f by (simp add: slice_from_neg)
  show "truncateLines lines (Finite maxL) Middle =
        (take (nat \<lceil>real_of_int (maxL - 1) / 2\<rceil>) lines @ [marker]
           @ drop (length lines - nat \<lfloor>real_of_int (maxL - 1) / 2\<rfloor>) lines, True)"
    unfolding ceil_half_ceiling [symmetric] floor_half_floor [symmetric]
    using h tl c by (simp add: Let_def slice_0_take)
next
  assume "maxL = 1 \<and> 1 < length lines"
  then show "truncateLines lines (Finite maxL) Middle = (take 1 lines, True)"
    by (simp add: slice_0_take)
next
  assume h: "0 < maxC - int (length marker) \<and> 10 < maxC \<and> maxC < int (length s)"
  let ?keep = "maxC - int (length marker)"
  have c: "0 \<le> ceil_half ?keep" using h by (simp add: ceil_half_def) linarith
  have f: "0 \<le> floor_half ?keep" "floor_half ?keep \<le> int (length s)"
    using h by (simp_all add: floor_half_def) linarith
  have tl: "slice_from (int (length s) - floor_half ?keep) s
              = drop (length s - nat (floor_half ?keep)) s"
  proof -
    have "nat (int (length s) - floor_half ?keep) = length s - nat (floor_half ?keep)"
      using f by linarith
    then show ?thesis using f by (simp add: slice_from_nonneg)
  qed
  show "truncateText s (Finite maxC) Middle =
        (take (nat \<lceil>real_of_int ?keep / 2\<rceil>) s @ marker
           @ drop (length s - nat \<lfloor>real_of_int ?keep / 2\<rfloor>) s, True)"
    unfolding ceil_half_ceiling [symmetric] floor_half_floor [symmetric]
    using h tl c by (simp add: Let_def slice_0_take)
next
  assume "(maxC - int (length marker) \<le> 0 \<or> maxC \<le> 10) \<and> 0 < maxC \<and> maxC < int (length s)"
  then show "truncateText s (Finite maxC) Middle = (take (nat maxC) s, True)"
    by (auto simp: slice_0_take marker_def)
qed

theorem keep_middle_shape_witness:
  "truncateLines [str ''a'', str ''b'', str ''c'', str ''d'', str ''e''] (Finite 4) Middle
     = ([str ''a'', str ''b'', marker, str ''e''], True)
   \<and> truncateLines [str ''a'', str ''b''] (Finite 1) Middle = ([str ''a''], True)
   \<and> truncateText (str ''abcdefghijklmnopqrstuvwxyz'') (Finite 22) Middle
     = (str ''ab'' @ marker @ str ''z'', True)
   \<and> truncateText (str ''abcdefghijklmnopqrstuvwxyz'') (Finite 19) Middle
     = (str ''abcdefghijklmnopqrs'', True)"
  using keep_middle_shape [of 4 "[str ''a'', str ''b'', str ''c'', str ''d'', str ''e'']" 22 "str ''abcdefghijklmnopqrstuvwxyz''"]
    keep_middle_shape [of 1 "[str ''a'', str ''b'']" 19 "str ''abcdefghijklmnopqrstuvwxyz''"]
  by (simp add: marker_def)

section \<open>The scratchpad round trip\<close>

text \<open>
  C3, as the claim states it, fails for an item whose text is empty, for an item whose
  text holds a carriage return, and for an item whose text holds the line separator
  U+2028: the three texts contain no newline and the three items have an empty meta, yet
  the serialized checkbox line does not match the item pattern (\<^verbatim>\<open>.+\<close> needs one
  character at least and stops at each of the four line terminators), so parsing the
  serialized list returns no item.
\<close>

theorem roundtrip_counterexample:
  "NL \<notin> set (text \<lparr>done = False, text = [], meta = []\<rparr>)
   \<and> meta \<lparr>done = False, text = [], meta = []\<rparr> = []
   \<and> parseScratchpad (serializeScratchpad [\<lparr>done = False, text = [], meta = []\<rparr>])
       \<noteq> [\<lparr>done = False, text = [], meta = []\<rparr>]
   \<and> NL \<notin> set (text \<lparr>done = True, text = [CU CHR ''a'', CR, CU CHR ''b''], meta = []\<rparr>)
   \<and> parseScratchpad
         (serializeScratchpad [\<lparr>done = True, text = [CU CHR ''a'', CR, CU CHR ''b''], meta = []\<rparr>])
       \<noteq> [\<lparr>done = True, text = [CU CHR ''a'', CR, CU CHR ''b''], meta = []\<rparr>]
   \<and> NL \<notin> set (text \<lparr>done = False, text = [CU CHR ''a'', 0x2028, CU CHR ''b''], meta = []\<rparr>)
   \<and> CR \<notin> set (text \<lparr>done = False, text = [CU CHR ''a'', 0x2028, CU CHR ''b''], meta = []\<rparr>)
   \<and> parseScratchpad
         (serializeScratchpad
            [\<lparr>done = False, text = [CU CHR ''a'', 0x2028, CU CHR ''b''], meta = []\<rparr>])
       = []"
  by (simp add: parseScratchpad_def serializeScratchpad_def item_lines_def line_terminator_def)

text \<open>
  C3 (amended). For every list of items in which each item's text is non-empty and
  contains no line terminator (line feed, carriage return, U+2028 or U+2029) and each
  item's meta is either the empty string or a whole line matching the comment pattern
  \<^verbatim>\<open>/^<!--.*-->$/\<close>, parsing the serialized list gives the list back exactly: same
  length, same order, and the same \<open>done\<close>, \<open>text\<close> and \<open>meta\<close> in every item.
\<close>

theorem scratchpad_roundtrip:
  assumes "\<forall>item \<in> set items.
             text item \<noteq> []
             \<and> NL \<notin> set (text item) \<and> CR \<notin> set (text item)
             \<and> 0x2028 \<notin> set (text item) \<and> 0x2029 \<notin> set (text item)
             \<and> (meta item = [] \<or> match_meta (meta item))"
  shows "parseScratchpad (serializeScratchpad items) = items"
proof -
  from assms have "list_all roundtrip_item items"
    by (auto simp: list_all_iff roundtrip_item_def line_terminator_def)
  then show ?thesis by (rule roundtrip_general)
qed

theorem scratchpad_roundtrip_witness:
  "parseScratchpad (serializeScratchpad
         [\<lparr>done = False, text = str ''Open task'', meta = str ''<!-- ts [sid] -->''\<rparr>,
          \<lparr>done = True, text = str ''Done task'', meta = []\<rparr>])
       = [\<lparr>done = False, text = str ''Open task'', meta = str ''<!-- ts [sid] -->''\<rparr>,
          \<lparr>done = True, text = str ''Done task'', meta = []\<rparr>]"
proof -
  have h: "\<forall>item \<in> set [\<lparr>done = False, text = str ''Open task'', meta = str ''<!-- ts [sid] -->''\<rparr>,
                          \<lparr>done = True, text = str ''Done task'', meta = []\<rparr>].
             text item \<noteq> []
             \<and> NL \<notin> set (text item) \<and> CR \<notin> set (text item)
             \<and> 0x2028 \<notin> set (text item) \<and> 0x2029 \<notin> set (text item)
             \<and> (meta item = [] \<or> match_meta (meta item))"
    by (simp add: match_meta_def line_terminator_def)
  from scratchpad_roundtrip [OF h] show ?thesis .
qed

section \<open>Items need a text\<close>

text \<open>
  C10. \<^verbatim>\<open>parseScratchpad\<close> produces an item for a line only when at least one
  character follows the single space after the checkbox marker: every parsed item has a
  non-empty text and comes from a line \<open>- [m] text\<close> with \<open>m\<close> a space, \<open>x\<close> or \<open>X\<close>. A
  line that is exactly \<open>- [ ]\<close>, \<open>- [x]\<close> or \<open>- [X]\<close> with a trailing space and nothing
  more yields no item, so no stored scratchpad parses to an item with an empty text.
\<close>

theorem parse_requires_text:
  "parseScratchpad (str ''- [ ] '') = []
   \<and> parseScratchpad (str ''- [x] '') = []
   \<and> parseScratchpad (str ''- [X] '') = []
   \<and> (item \<in> set (parseScratchpad content) \<longrightarrow>
        text item \<noteq> []
        \<and> (\<exists>mk. (mk = CU CHR '' '' \<or> mk = CU CHR ''x'' \<or> mk = CU CHR ''X'')
               \<and> str ''- ['' @ mk # str ''] '' @ text item \<in> set (split_nl content)))"
proof (intro conjI impI)
  assume "item \<in> set (parseScratchpad content)"
  then have "item \<in> set (parse_lines None (split_nl content))"
    by (simp add: parseScratchpad_def)
  from parse_lines_text_nonempty [OF this]
  show "text item \<noteq> []"
    and "\<exists>mk. (mk = CU CHR '' '' \<or> mk = CU CHR ''x'' \<or> mk = CU CHR ''X'')
              \<and> str ''- ['' @ mk # str ''] '' @ text item \<in> set (split_nl content)"
    by blast+
qed (simp_all add: parseScratchpad_def)

theorem parse_requires_text_witness:
  "\<lparr>done = True, text = str ''b'', meta = []\<rparr> \<in> set (parseScratchpad (str ''- [ ] a\<newline>- [X] b\<newline>- [x] ''))
   \<and> text \<lparr>done = True, text = str ''b'', meta = []\<rparr> \<noteq> []
   \<and> str ''- [X] b'' \<in> set (split_nl (str ''- [ ] a\<newline>- [X] b\<newline>- [x] ''))
   \<and> length (parseScratchpad (str ''- [ ] a\<newline>- [X] b\<newline>- [x] '')) = 2"
proof -
  have h: "\<lparr>done = True, text = str ''b'', meta = []\<rparr>
             \<in> set (parseScratchpad (str ''- [ ] a\<newline>- [X] b\<newline>- [x] ''))"
    by (simp add: parseScratchpad_def toLowerCase_def line_terminator_def match_meta_def)
  from parse_requires_text [of "\<lparr>done = True, text = str ''b'', meta = []\<rparr>"
      "str ''- [ ] a\<newline>- [X] b\<newline>- [x] ''"] h
  have "text \<lparr>done = True, text = str ''b'', meta = []\<rparr> \<noteq> []" by blast
  with h show ?thesis
    by (simp add: parseScratchpad_def toLowerCase_def line_terminator_def match_meta_def)
qed

section \<open>The budget of a preview\<close>

text \<open>
  C1, as the claim states it, fails for an input with blank lines around its text:
  \<^verbatim>\<open>buildPreview\<close> trims the input before it counts lines. The input of three
  newlines followed by \<open>ab\<close> has four lines, more than the limit of two, yet the
  trimmed content is the one line \<open>ab\<close>, nothing is cut and \<open>truncated\<close> is false.
\<close>

theorem raw_line_count_counterexample:
  "2 < length (split_nl ([NL, NL, NL] @ str ''ab''))
   \<and> \<not> truncated (buildPreview ([NL, NL, NL] @ str ''ab'')
          \<lparr>maxLines = Finite 2, maxChars = Finite 5, mode = Start\<rparr>)
   \<and> totalLines (buildPreview ([NL, NL, NL] @ str ''ab'')
          \<lparr>maxLines = Finite 2, maxChars = Finite 5, mode = Start\<rparr>) = 1
   \<and> preview (buildPreview ([NL, NL, NL] @ str ''ab'')
          \<lparr>maxLines = Finite 2, maxChars = Finite 5, mode = Start\<rparr>) = str ''ab''"
  by (simp add: buildPreview_def normalizeContent_def trim_def is_space_def Let_def)

text \<open>
  C1 (amended). For every content and every finite positive pair of limits, the result of
  \<^verbatim>\<open>buildPreview\<close> has \<open>previewChars \<le> maxChars\<close> and \<open>previewLines \<le> maxLines\<close>,
  where \<open>previewChars\<close> and \<open>previewLines\<close> are the character and line counts of the
  preview, and its flag \<open>truncated\<close> holds exactly when the line count of the trimmed
  input (the count reported as \<open>totalLines\<close>) exceeds \<open>maxLines\<close> or the character count
  of the line-truncated text exceeds \<open>maxChars\<close>.
\<close>

theorem preview_budget:
  assumes "0 < maxL" and "0 < maxC"
  shows "int (previewChars (buildPreview content \<lparr>maxLines = Finite maxL, maxChars = Finite maxC, mode = m\<rparr>)) \<le> maxC
       \<and> int (previewLines (buildPreview content \<lparr>maxLines = Finite maxL, maxChars = Finite maxC, mode = m\<rparr>)) \<le> maxL
       \<and> (truncated (buildPreview content \<lparr>maxLines = Finite maxL, maxChars = Finite maxC, mode = m\<rparr>)
            \<longleftrightarrow> maxL < int (length (split_nl (normalizeContent content)))
               \<or> maxC < int (length (join [NL]
                    (fst (truncateLines (split_nl (normalizeContent content)) (Finite maxL) m)))))
       \<and> (truncated (buildPreview content \<lparr>maxLines = Finite maxL, maxChars = Finite maxC, mode = m\<rparr>)
            \<longleftrightarrow> maxL < int (totalLines (buildPreview content
                          \<lparr>maxLines = Finite maxL, maxChars = Finite maxC, mode = m\<rparr>))
               \<or> maxC < int (length (join [NL]
                    (fst (truncateLines (split_nl (normalizeContent content)) (Finite maxL) m)))))
       \<and> previewChars (buildPreview content \<lparr>maxLines = Finite maxL, maxChars = Finite maxC, mode = m\<rparr>)
           = length (preview (buildPreview content \<lparr>maxLines = Finite maxL, maxChars = Finite maxC, mode = m\<rparr>))
       \<and> previewLines (buildPreview content \<lparr>maxLines = Finite maxL, maxChars = Finite maxC, mode = m\<rparr>)
           = (if preview (buildPreview content \<lparr>maxLines = Finite maxL, maxChars = Finite maxC, mode = m\<rparr>) = []
              then 0
              else length (split_nl (preview (buildPreview content
                     \<lparr>maxLines = Finite maxL, maxChars = Finite maxC, mode = m\<rparr>))))
       \<and> totalLines (buildPreview content \<lparr>maxLines = Finite maxL, maxChars = Finite maxC, mode = m\<rparr>)
           = (if normalizeContent content = [] then 0
              else length (split_nl (normalizeContent content)))"
proof -
  let ?r = "buildPreview content \<lparr>maxLines = Finite maxL, maxChars = Finite maxC, mode = m\<rparr>"
  note b = buildPreview_budget [OF assms, of content m]
  have tl: "totalLines ?r = (if normalizeContent content = [] then 0
              else length (split_nl (normalizeContent content)))"
    by (simp add: buildPreview_def Let_def)
  have pl: "previewLines ?r = (if preview ?r = [] then 0 else length (split_nl (preview ?r)))"
    by (simp add: buildPreview_def Let_def)
  have pc: "previewChars ?r = length (preview ?r)"
    by (rule buildPreview_totals(3))
  have "(maxL < int (totalLines ?r))
          = (maxL < int (length (split_nl (normalizeContent content))))"
    using assms(1) by (simp add: tl)
  with b tl pl pc show ?thesis by (simp only: simp_thms)
qed

theorem preview_budget_witness:
  "(0::int) < 2 \<and> (0::int) < 5
   \<and> previewChars (buildPreview (str ''ab\<newline>cd\<newline>ef'') \<lparr>maxLines = Finite 2, maxChars = Finite 5, mode = Start\<rparr>) = 5
   \<and> previewLines (buildPreview (str ''ab\<newline>cd\<newline>ef'') \<lparr>maxLines = Finite 2, maxChars = Finite 5, mode = Start\<rparr>) = 2
   \<and> truncated (buildPreview (str ''ab\<newline>cd\<newline>ef'') \<lparr>maxLines = Finite 2, maxChars = Finite 5, mode = Start\<rparr>)
   \<and> totalLines (buildPreview (str ''ab\<newline>cd\<newline>ef'') \<lparr>maxLines = Finite 2, maxChars = Finite 5, mode = Start\<rparr>) = 3"
  using preview_budget [of 2 5 "str ''ab\<newline>cd\<newline>ef''" Start]
  by (simp add: buildPreview_def normalizeContent_def trim_def is_space_def slice_def rel_index_def Let_def)

section \<open>The overall cap\<close>

text \<open>
  C2. For every store and every search-results string, the string returned by
  \<^verbatim>\<open>buildMemoryContext\<close> is at most \<open>CONTEXT_MAX_CHARS = 16000\<close> characters long plus
  the length of the truncation notice that the overall pass appends. The notice is the
  template of 46 fixed characters with the two character counts substituted, and it is
  empty when the overall pass does not truncate. For a context that is a string of the
  host language (at most \<open>2^53 - 1\<close> code units) the counts have at most 5 and 16 digits,
  and the output has at most \<open>16000 + 67\<close> characters.
\<close>

theorem overall_cap:
  "length (buildMemoryContext env searchResults)
     \<le> 16000 + length (overall_note (buildPreview
           (heading @ join divider (collect_sections env searchResults)) overall_options))
   \<and> length (overall_note (buildPreview
           (heading @ join divider (collect_sections env searchResults)) overall_options))
       = (if truncated (buildPreview
               (heading @ join divider (collect_sections env searchResults)) overall_options)
          then 46
            + length (show_nat (previewChars (buildPreview
                (heading @ join divider (collect_sections env searchResults)) overall_options)))
            + length (show_nat (totalChars (buildPreview
                (heading @ join divider (collect_sections env searchResults)) overall_options)))
          else 0)
   \<and> (length (heading @ join divider (collect_sections env searchResults)) \<le> MAX_STRING_LENGTH
        \<longrightarrow> length (buildMemoryContext env searchResults) \<le> 16067)"
  using finish_context_cap [of "collect_sections env searchResults"]
    finish_context_allowance [of "collect_sections env searchResults"]
  by (simp add: buildMemoryContext_def overall_note_length CONTEXT_MAX_CHARS_def)

theorem overall_cap_witness:
  "length (heading @ join divider (collect_sections
      \<lparr>files = [MEMORY_FILE \<mapsto> str ''Remember dark mode''],
       today = str ''2026-02-16'', yesterday = str ''2026-02-15''\<rparr> None)) \<le> MAX_STRING_LENGTH
   \<and> length (buildMemoryContext
      \<lparr>files = [MEMORY_FILE \<mapsto> str ''Remember dark mode''],
       today = str ''2026-02-16'', yesterday = str ''2026-02-15''\<rparr> None) \<le> 16067"
proof -
  have h: "length (heading @ join divider (collect_sections
      \<lparr>files = [MEMORY_FILE \<mapsto> str ''Remember dark mode''],
       today = str ''2026-02-16'', yesterday = str ''2026-02-15''\<rparr> None)) \<le> MAX_STRING_LENGTH"
    by (simp add: context_defs MAX_STRING_LENGTH_def)
  from overall_cap [of "\<lparr>files = [MEMORY_FILE \<mapsto> str ''Remember dark mode''],
       today = str ''2026-02-16'', yesterday = str ''2026-02-15''\<rparr>" None] h
  show ?thesis by blast
qed

section \<open>Done items and the scratchpad section\<close>

text \<open>
  C4, as the claim states it, fails when the text of a done item also occurs in an open
  item: the done item \<open>Ship release\<close> is dropped, but the open item
  \<open>Ship release notes\<close> is shown, so the scratchpad section contains the done item's
  text.
\<close>

theorem done_text_counterexample:
  "\<lparr>done = True, text = str ''Ship release'', meta = []\<rparr>
     \<in> set (parseScratchpad (str ''- [ ] Ship release notes\<newline>- [x] Ship release''))
   \<and> buildMemoryContext
        \<lparr>files = [SCRATCHPAD_FILE \<mapsto> str ''- [ ] Ship release notes\<newline>- [x] Ship release''],
         today = str ''2026-02-16'', yesterday = str ''2026-02-15''\<rparr> None
       = str ''# Memory\<newline>\<newline>## SCRATCHPAD.md (working context)\<newline>\<newline># Scratchpad\<newline>\<newline>- [ ] Ship release notes''
   \<and> str_includes
        (buildMemoryContext
          \<lparr>files = [SCRATCHPAD_FILE \<mapsto> str ''- [ ] Ship release notes\<newline>- [x] Ship release''],
           today = str ''2026-02-16'', yesterday = str ''2026-02-15''\<rparr> None)
        (str ''Ship release'')"
  by (simp add: context_defs)

text \<open>
  C4 (amended). For every scratchpad blob, the scratchpad section of the output of
  \<^verbatim>\<open>buildMemoryContext\<close> is built from the parsed items whose \<open>done\<close> flag is false
  only: the section, and the whole output, are the same as for the scratchpad with every
  done item removed (the serialization of its open items). A scratchpad whose items are
  all done, or that parses to no items, contributes no scratchpad section at all.
\<close>

theorem scratchpad_section_open_only:
  "scratchpad_sections (Some content)
     = scratchpad_sections
         (Some (serializeScratchpad (filter (\<lambda>i. \<not> done i) (parseScratchpad content))))
   \<and> ((\<forall>item \<in> set (parseScratchpad content). done item) \<longrightarrow>
        scratchpad_sections (Some content) = [])
   \<and> (readFileSafe env SCRATCHPAD_FILE = Some content \<longrightarrow>
        buildMemoryContext env searchResults
          = buildMemoryContext
              (env\<lparr>files := (files env)(SCRATCHPAD_FILE \<mapsto>
                 serializeScratchpad (filter (\<lambda>i. \<not> done i) (parseScratchpad content)))\<rparr>)
              searchResults)"
proof (intro conjI impI)
  show "scratchpad_sections (Some content)
     = scratchpad_sections
         (Some (serializeScratchpad (filter (\<lambda>i. \<not> done i) (parseScratchpad content))))"
    by (rule scratchpad_sections_open_only)
next
  assume "\<forall>item \<in> set (parseScratchpad content). done item"
  then show "scratchpad_sections (Some content) = []"
    by (rule scratchpad_sections_all_done)
next
  let ?env = "env\<lparr>files := (files env)(SCRATCHPAD_FILE \<mapsto>
                 serializeScratchpad (filter (\<lambda>i. \<not> done i) (parseScratchpad content)))\<rparr>"
  assume r: "readFileSafe env SCRATCHPAD_FILE = Some content"
  have other: "readFileSafe ?env (dailyPath d) = readFileSafe env (dailyPath d)"
    "readFileSafe ?env MEMORY_FILE = readFileSafe env MEMORY_FILE" for d
    by (simp_all add: readFileSafe_def dailyPath_def SCRATCHPAD_FILE_def MEMORY_FILE_def)
  have this_one: "readFileSafe ?env SCRATCHPAD_FILE
      = Some (serializeScratchpad (filter (\<lambda>i. \<not> done i) (parseScratchpad content)))"
    by (simp add: readFileSafe_def)
  have "collect_sections ?env searchResults = collect_sections env searchResults"
    unfolding collect_sections_def today_sections_def long_term_sections_def
      yesterday_sections_def other this_one r
    using scratchpad_sections_open_only [of content] by simp
  then show "buildMemoryContext env searchResults = buildMemoryContext ?env searchResults"
    by (simp add: buildMemoryContext_def)
qed

theorem scratchpad_section_open_only_witness:
  "scratchpad_sections (Some (str ''- [x] Ship release'')) = []
   \<and> readFileSafe \<lparr>files = [SCRATCHPAD_FILE \<mapsto> str ''- [x] Ship release''],
         today = str ''2026-02-16'', yesterday = str ''2026-02-15''\<rparr> SCRATCHPAD_FILE
       = Some (str ''- [x] Ship release'')
   \<and> buildMemoryContext \<lparr>files = [SCRATCHPAD_FILE \<mapsto> str ''- [x] Ship release''],
         today = str ''2026-02-16'', yesterday = str ''2026-02-15''\<rparr> None = []"
proof -
  have h: "\<forall>item \<in> set (parseScratchpad (str ''- [x] Ship release'')). done item"
    by (simp add: parseScratchpad_def toLowerCase_def line_terminator_def)
  have r: "readFileSafe \<lparr>files = [SCRATCHPAD_FILE \<mapsto> str ''- [x] Ship release''],
         today = str ''2026-02-16'', yesterday = str ''2026-02-15''\<rparr> SCRATCHPAD_FILE
       = Some (str ''- [x] Ship release'')"
    by (simp add: readFileSafe_def)
  from scratchpad_section_open_only [of "str ''- [x] Ship release''"
      "\<lparr>files = [SCRATCHPAD_FILE \<mapsto> str ''- [x] Ship release''],
         today = str ''2026-02-16'', yesterday = str ''2026-02-15''\<rparr>" None] h
  have s: "scratchpad_sections (Some (str ''- [x] Ship release'')) = []" by blast
  have "buildMemoryContext \<lparr>files = [SCRATCHPAD_FILE \<mapsto> str ''- [x] Ship release''],
         today = str ''2026-02-16'', yesterday = str ''2026-02-15''\<rparr> None = []"
    unfolding buildMemoryContext_def collect_sections_def r s
    by (simp add: readFileSafe_def dailyPath_def SCRATCHPAD_FILE_def MEMORY_FILE_def
        today_sections_def search_sections_def long_term_sections_def yesterday_sections_def
        source_sections_def finish_context_def)
  with r s show ?thesis by blast
qed

section \<open>The output of the search subprocess\<close>

text \<open>
  C7. On the raw output \<open>No results found.\<close> the claim asks for an empty list of
  snippets. \<^verbatim>\<open>runQmdSearch\<close> hands the output to \<^verbatim>\<open>JSON.parse\<close> as it is, the
  parse throws, and the promise is rejected with the message of the parse failure.
\<close>

theorem sentinel_rejected:
  "runQmdSearch (\<lambda>file args. \<lparr>err = None, stdout = str ''No results found.'', stderr = []\<rparr>)
      Keyword (str ''nope'') 5
   = Inl (str ''Failed to parse qmd output: No results found.'')"
  using JSON_parse_sentinel by (simp add: runQmdSearch_def slice_def rel_index_def)

text \<open>
  C6. On a valid two-element array of snippet records \<^verbatim>\<open>runQmdSearch\<close> resolves to
  exactly those records. With terminal control sequences and status lines in front of
  the same array, the claim asks for the same two records; \<^verbatim>\<open>runQmdSearch\<close> does not
  look for the start of the payload, \<^verbatim>\<open>JSON.parse\<close> throws at the first character of
  the noise, and the promise is rejected.
\<close>

theorem noisy_rejected:
  "runQmdSearch (\<lambda>file args. \<lparr>err = None, stdout = payload, stderr = []\<rparr>) Keyword (str ''hello'') 5
     = Inr (JArray [JObject [(str ''path'', JString (str ''MEMORY.md'')), (str ''content'', JString (str ''Hello''))],
                   JObject [(str ''path'', JString (str ''daily/2026-02-16.md'')),
                            (str ''content'', JString (str ''World''))]])
   \<and> runQmdSearch (\<lambda>file args. \<lparr>err = None, stdout = noise @ payload, stderr = []\<rparr>)
        Keyword (str ''hello'') 5
     = Inl (str ''Failed to parse qmd output: '' @ take 200 (noise @ payload))"
  by (simp add: runQmdSearch_def payload_parses noisy_fails slice_0_take)

section \<open>The order of the sections\<close>

text \<open>
  C5. Whenever the scratchpad, today's log, the search results, the long-term memory and
  yesterday's log each contribute a section, the output of \<^verbatim>\<open>buildMemoryContext\<close> is
  the heading \<open># Memory\<close> followed by the five sections in exactly that order, each
  starting with its label and joined to the next by the divider. The sources are strings
  of the host language, at most \<open>2^53 - 1\<close> code units long, and the two dates are the
  ten characters \<open>YYYY-MM-DD\<close> that \<^verbatim>\<open>todayStr\<close> and \<^verbatim>\<open>yesterdayStr\<close> return.
\<close>

theorem sections_in_order:
  assumes "scratchpad_sections (readFileSafe env SCRATCHPAD_FILE) \<noteq> []"
    and "today_sections env \<noteq> []"
    and "search_sections searchResults \<noteq> []"
    and "long_term_sections env \<noteq> []"
    and "yesterday_sections env \<noteq> []"
    and "within_string_limit (readFileSafe env SCRATCHPAD_FILE)"
    and "within_string_limit (readFileSafe env (dailyPath (today env)))"
    and "within_string_limit searchResults"
    and "within_string_limit (readFileSafe env MEMORY_FILE)"
    and "within_string_limit (readFileSafe env (dailyPath (yesterday env)))"
    and "length (today env) = 10" and "length (yesterday env) = 10"
  shows "\<exists>b1 b2 b3 b4 b5.
     buildMemoryContext env searchResults
       = str ''# Memory'' @ [NL, NL]
         @ str ''## SCRATCHPAD.md (working context)'' @ [NL, NL] @ b1 @ divider
         @ str ''## Daily log: '' @ today env @ str '' (today)'' @ [NL, NL] @ b2 @ divider
         @ str ''## Relevant memories (auto-retrieved)'' @ [NL, NL] @ b3 @ divider
         @ str ''## MEMORY.md (long-term)'' @ [NL, NL] @ b4 @ divider
         @ str ''## Daily log: '' @ yesterday env @ str '' (yesterday)'' @ [NL, NL] @ b5"
  using assms by (rule five_sections_fit)

theorem sections_in_order_witness:
  "\<exists>b1 b2 b3 b4 b5.
     buildMemoryContext
       \<lparr>files = [SCRATCHPAD_FILE \<mapsto> str ''- [ ] Fix bug'', MEMORY_FILE \<mapsto> str ''Remember dark mode'',
                 dailyPath (str ''2026-02-16'') \<mapsto> str ''today note'',
                 dailyPath (str ''2026-02-15'') \<mapsto> str ''yesterday note''],
        today = str ''2026-02-16'', yesterday = str ''2026-02-15''\<rparr> (Some (str ''found''))
       = str ''# Memory'' @ [NL, NL]
         @ str ''## SCRATCHPAD.md (working context)'' @ [NL, NL] @ b1 @ divider
         @ str ''## Daily log: '' @ str ''2026-02-16'' @ str '' (today)'' @ [NL, NL] @ b2 @ divider
         @ str ''## Relevant memories (auto-retrieved)'' @ [NL, NL] @ b3 @ divider
         @ str ''## MEMORY.md (long-term)'' @ [NL, NL] @ b4 @ divider
         @ str ''## Daily log: '' @ str ''2026-02-15'' @ str '' (yesterday)'' @ [NL, NL] @ b5"
  using sections_in_order
    [of "\<lparr>files = [SCRATCHPAD_FILE \<mapsto> str ''- [ ] Fix bug'', MEMORY_FILE \<mapsto> str ''Remember dark mode'',
                 dailyPath (str ''2026-02-16'') \<mapsto> str ''today note'',
                 dailyPath (str ''2026-02-15'') \<mapsto> str ''yesterday note''],
        today = str ''2026-02-16'', yesterday = str ''2026-02-15''\<rparr>" "Some (str ''found'')"]
  by (simp add: context_defs MAX_STRING_LENGTH_def)

end
